theory Spec2Isabelle
  imports Main "HOL-Library.AList" "HOL-Library.Sublist"
begin

section \<open>Paths and strings\<close>

text \<open>
  A path is the string the program handles. The separator is the POSIX one. The three
  functions below are \<open>posixpath.join\<close> (two arguments), \<open>posixpath.dirname\<close> and
  \<open>posixpath.basename\<close>. Python's \<open>a in b\<close> on strings is \<^const>\<open>sublist\<close> \<open>a b\<close>
  (\<open>b = ps @ a @ ss\<close> for some \<open>ps\<close>, \<open>ss\<close>), and \<open>x.count(os.path.sep)\<close> is
  \<open>count_list x sep\<close>.
\<close>

type_synonym path = string

definition sep :: char where
  "sep = CHR ''/''"

definition join :: "path \<Rightarrow> path \<Rightarrow> path" where
  "join a b =
     (if b \<noteq> [] \<and> hd b = sep then b
      else if a = [] \<or> last a = sep then a @ b
      else a @ [sep] @ b)"

definition dirname :: "path \<Rightarrow> path" where
  "dirname p =
     (let head = rev (dropWhile (\<lambda>c. c \<noteq> sep) (rev p))
      in if head \<noteq> [] \<and> \<not> list_all (\<lambda>c. c = sep) head
         then rev (dropWhile (\<lambda>c. c = sep) (rev head))
         else head)"

definition basename :: "path \<Rightarrow> path" where
  "basename p = rev (takeWhile (\<lambda>c. c \<noteq> sep) (rev p))"

definition depth :: "path \<Rightarrow> nat" where
  "depth x = count_list x sep"

definition inside :: "path \<Rightarrow> path \<Rightarrow> bool" where
  "inside folder p = prefix (folder @ [sep]) p"

definition ancestors :: "path \<Rightarrow> path list" where
  "ancestors p = map (\<lambda>i. take i p) (filter (\<lambda>i. p ! i = sep) [0..<length p])"

section \<open>The file system\<close>

text \<open>
  A directory tree is the list of its entries, each under its path relative to the root
  of the tree, as \<open>os.path.relpath\<close> prints it (\<open>a/b/c\<close>). A file has a modification
  time and a content; the time is the value \<open>os.path.getmtime\<close> returns, which the
  program only compares for equality. The world holds the trees by the path of their
  root, the directories outside the trees (the log folder), the text files outside the
  trees (the log file, kept as the list of the lines appended to it), the console, and the
  sequence of file-system calls made so far.

  A log line is kept as the pair of its type and its text; the program renders it as
  \<open>[now] type:<7 - text\<close>.

  Scope of the model: roots of trees are not nested in each other and hold no log
  folder; there are no symbolic links; every directory can be listed, so \<open>os.walk\<close>
  sees every entry; a refused \<open>os.remove\<close>, \<open>copy2\<close> or \<open>getmtime\<close> changes
  nothing, while a refused \<open>rmtree\<close> or \<open>copytree\<close> may have gone through part of
  the entries before it raised.
\<close>

datatype node = File (mtime: nat) (content: string) | Folder

type_synonym tree = "(path \<times> node) list"

datatype msg_type = INFO | OKAY | ERROR | CREATED | DELETED | UPDATED

type_synonym log_line = "msg_type \<times> string"

datatype oscall =
    Exists path
  | Walk path
  | Rmtree path
  | Remove path
  | Copytree path path
  | Copy2 path path
  | Getmtime path

text \<open>Every exception of the model is a subclass of Python's \<open>OSError\<close>.\<close>

datatype error =
    FileNotFoundError
  | FileExistsError
  | NotADirectoryError
  | IsADirectoryError
  | PermissionError

record world =
  trees :: "path \<Rightarrow> tree option"
  dirs :: "path \<Rightarrow> bool"
  text_files :: "path \<Rightarrow> log_line list option"
  console :: "log_line list"
  calls :: "oscall list"

text \<open>
  The environment of one cycle: the calls the operating system refuses (permission
  denied, file in use, device error), for a refused call that walks a folder the entries
  it got through before it raised, and the timestamp the operating system reports for a
  directory. Within a cycle no call is made twice with the same arguments, so a fixed
  predicate covers every pattern of failures.
\<close>

record env =
  refuses :: "oscall \<Rightarrow> bool"
  partly :: "oscall \<Rightarrow> path \<Rightarrow> bool"
  dir_mtime :: "path \<Rightarrow> nat"

text \<open>
  A statement that may raise returns the exception, if any, and the state reached when
  it was raised. \<open>and_then\<close> is sequencing, \<open>except_OSError\<close> is the handler of
  \<open>try: ... except OSError: ...\<close>.
\<close>

definition and_then :: "error option \<times> 's \<Rightarrow> ('s \<Rightarrow> error option \<times> 's) \<Rightarrow> error option \<times> 's" where
  "and_then r k = (case r of (None, s) \<Rightarrow> k s | (Some e, s) \<Rightarrow> (Some e, s))"

definition except_OSError :: "error option \<times> 's \<Rightarrow> ('s \<Rightarrow> error option \<times> 's) \<Rightarrow> error option \<times> 's" where
  "except_OSError r handler = (case r of (None, s) \<Rightarrow> (None, s) | (Some e, s) \<Rightarrow> handler s)"

definition called :: "oscall \<Rightarrow> world \<Rightarrow> world" where
  "called c w = w\<lparr>calls := calls w @ [c]\<rparr>"

definition set_tree :: "path \<Rightarrow> tree \<Rightarrow> world \<Rightarrow> world" where
  "set_tree root t w = w\<lparr>trees := (trees w)(root \<mapsto> t)\<rparr>"

definition os_path_exists :: "path \<Rightarrow> world \<Rightarrow> bool \<times> world" where
  "os_path_exists p w =
     (trees w p \<noteq> None \<or> dirs w p \<or> text_files w p \<noteq> None, called (Exists p) w)"

subsection \<open>\<open>shutil.rmtree\<close> and \<open>os.remove\<close>\<close>

text \<open>
  \<open>rmtree\<close> removes the entries inside the folder one by one, then the folder itself,
  and raises at the first removal that fails: a refused \<open>rmtree\<close> leaves the folder in
  place and has removed the entries inside it that it got through.
\<close>

definition remove_subtree :: "path \<Rightarrow> tree \<Rightarrow> tree" where
  "remove_subtree p t = filter (\<lambda>(q, n). q \<noteq> p \<and> \<not> inside p q) t"

definition remove_part :: "(path \<Rightarrow> bool) \<Rightarrow> path \<Rightarrow> tree \<Rightarrow> tree" where
  "remove_part got p t = filter (\<lambda>(q, n). \<not> (inside p q \<and> got q)) t"

definition shutil_rmtree :: "env \<Rightarrow> path \<Rightarrow> path \<Rightarrow> world \<Rightarrow> error option \<times> world" where
  "shutil_rmtree ev root rel w =
     (let c = Rmtree (join root rel); w1 = called c w in
      case trees w1 root of
        None \<Rightarrow> (Some FileNotFoundError, w1)
      | Some t \<Rightarrow>
          (case map_of t rel of
             None \<Rightarrow> (Some FileNotFoundError, w1)
           | Some (File m c') \<Rightarrow> (Some NotADirectoryError, w1)
           | Some Folder \<Rightarrow>
               if refuses ev c
               then (Some PermissionError, set_tree root (remove_part (partly ev c) rel t) w1)
               else (None, set_tree root (remove_subtree rel t) w1)))"

definition os_remove :: "env \<Rightarrow> path \<Rightarrow> path \<Rightarrow> world \<Rightarrow> error option \<times> world" where
  "os_remove ev root rel w =
     (let w1 = called (Remove (join root rel)) w in
      if refuses ev (Remove (join root rel)) then (Some PermissionError, w1)
      else case trees w1 root of
        None \<Rightarrow> (Some FileNotFoundError, w1)
      | Some t \<Rightarrow>
          (case map_of t rel of
             None \<Rightarrow> (Some FileNotFoundError, w1)
           | Some Folder \<Rightarrow> (Some IsADirectoryError, w1)
           | Some (File m c) \<Rightarrow> (None, set_tree root (AList.delete rel t) w1)))"

subsection \<open>\<open>shutil.copytree\<close> and \<open>shutil.copy2\<close>\<close>

text \<open>
  \<open>copytree\<close> lists the source folder, then \<open>os.makedirs\<close> the destination (which
  creates the missing directories above it and raises when the destination exists),
  then copies every entry below with \<open>copy2\<close>, which keeps the modification time.
  It goes on after an entry that fails and raises at the end: a refused \<open>copytree\<close>
  has written the entries it got through.
\<close>

definition is_file :: "node option \<Rightarrow> bool" where
  "is_file x = (case x of Some (File m c) \<Rightarrow> True | _ \<Rightarrow> False)"

definition write_entries :: "tree \<Rightarrow> tree \<Rightarrow> tree" where
  "write_entries new t = fold (\<lambda>(q, n). AList.update q n) new t"

definition copied_entries :: "tree \<Rightarrow> tree \<Rightarrow> path \<Rightarrow> tree" where
  "copied_entries s d rel =
     map (\<lambda>a. (a, Folder)) (filter (\<lambda>a. map_of d a = None) (ancestors rel))
     @ [(rel, Folder)]
     @ filter (\<lambda>(q, n). inside rel q) s"

definition copied_part :: "(path \<Rightarrow> bool) \<Rightarrow> tree \<Rightarrow> tree \<Rightarrow> path \<Rightarrow> tree" where
  "copied_part got s d rel = filter (\<lambda>(q, n). got q) (copied_entries s d rel)"

definition shutil_copytree :: "env \<Rightarrow> path \<Rightarrow> path \<Rightarrow> path \<Rightarrow> world \<Rightarrow> error option \<times> world" where
  "shutil_copytree ev sroot droot rel w =
     (let c = Copytree (join sroot rel) (join droot rel); w1 = called c w in
      case trees w1 sroot of
        None \<Rightarrow> (Some FileNotFoundError, w1)
      | Some s \<Rightarrow>
          (case map_of s rel of
             None \<Rightarrow> (Some FileNotFoundError, w1)
           | Some (File m c') \<Rightarrow> (Some NotADirectoryError, w1)
           | Some Folder \<Rightarrow>
               (let d = (case trees w1 droot of None \<Rightarrow> [] | Some d \<Rightarrow> d) in
                if map_of d rel \<noteq> None then (Some FileExistsError, w1)
                else if list_ex (\<lambda>a. is_file (map_of d a)) (ancestors rel)
                  then (Some NotADirectoryError, w1)
                else if refuses ev c
                  then (Some PermissionError,
                        set_tree droot (write_entries (copied_part (partly ev c) s d rel) d) w1)
                else (None, set_tree droot (write_entries (copied_entries s d rel) d) w1))))"

text \<open>
  \<open>copy2(src, dst)\<close>: when \<open>dst\<close> is a directory the file is written inside it under
  the base name of \<open>src\<close>; the directory that receives the file must exist.
\<close>

definition parent_error :: "tree \<Rightarrow> path \<Rightarrow> error option" where
  "parent_error d target =
     (if dirname target = [] then None
      else case map_of d (dirname target) of
        None \<Rightarrow> Some FileNotFoundError
      | Some (File m c) \<Rightarrow> Some NotADirectoryError
      | Some Folder \<Rightarrow> None)"

definition shutil_copy2 :: "env \<Rightarrow> path \<Rightarrow> path \<Rightarrow> path \<Rightarrow> world \<Rightarrow> error option \<times> world" where
  "shutil_copy2 ev sroot droot rel w =
     (let c = Copy2 (join sroot rel) (join droot rel); w1 = called c w in
      if refuses ev c then (Some PermissionError, w1)
      else case trees w1 droot of
        None \<Rightarrow> (Some FileNotFoundError, w1)
      | Some d \<Rightarrow>
          (let target = (if map_of d rel = Some Folder then join rel (basename rel) else rel) in
           case trees w1 sroot of
             None \<Rightarrow> (Some FileNotFoundError, w1)
           | Some s \<Rightarrow>
               (case map_of s rel of
                  None \<Rightarrow> (Some FileNotFoundError, w1)
                | Some Folder \<Rightarrow> (Some IsADirectoryError, w1)
                | Some (File m c) \<Rightarrow>
                    (if map_of d target = Some Folder then (Some IsADirectoryError, w1)
                     else case parent_error d target of
                       Some e \<Rightarrow> (Some e, w1)
                     | None \<Rightarrow> (None, set_tree droot (AList.update target (File m c) d) w1)))))"

subsection \<open>\<open>os.path.getmtime\<close>\<close>

definition os_path_getmtime :: "env \<Rightarrow> path \<Rightarrow> path \<Rightarrow> world \<Rightarrow> (error + nat) \<times> world" where
  "os_path_getmtime ev root rel w =
     (let w1 = called (Getmtime (join root rel)) w in
      if refuses ev (Getmtime (join root rel)) then (Inl PermissionError, w1)
      else case trees w1 root of
        None \<Rightarrow> (Inl FileNotFoundError, w1)
      | Some t \<Rightarrow>
          (case map_of t rel of
             None \<Rightarrow> (Inl FileNotFoundError, w1)
           | Some (File m c) \<Rightarrow> (Inr m, w1)
           | Some Folder \<Rightarrow> (Inr (dir_mtime ev (join root rel)), w1)))"

section \<open>The program\<close>

subsection \<open>\<open>log_message\<close>\<close>

text \<open>
  The message is printed, then appended to the file when a path is given. Opening in
  append mode creates a missing file, and raises when the folder of the file is missing
  or the path is a directory.
\<close>

definition log_message :: "string \<Rightarrow> msg_type \<Rightarrow> path option \<Rightarrow> world \<Rightarrow> error option \<times> world" where
  "log_message msg_text msg_type file_path w =
     (let msg = (msg_type, msg_text); w1 = w\<lparr>console := console w @ [msg]\<rparr> in
      case file_path of
        None \<Rightarrow> (None, w1)
      | Some fp \<Rightarrow>
          (if dirs w1 fp \<or> trees w1 fp \<noteq> None then (Some IsADirectoryError, w1)
           else case text_files w1 fp of
             Some ls \<Rightarrow> (None, w1\<lparr>text_files := (text_files w1)(fp \<mapsto> ls @ [msg])\<rparr>)
           | None \<Rightarrow>
               (if dirs w1 (dirname fp)
                then (None, w1\<lparr>text_files := (text_files w1)(fp \<mapsto> [msg])\<rparr>)
                else (Some FileNotFoundError, w1))))"

subsection \<open>\<open>get_all_files_and_folders\<close>\<close>

text \<open>
  A Python set is modelled by the duplicate-free list of its elements in the order a
  \<open>for\<close> loop visits them; membership is membership in the list. \<open>os.walk\<close> on a
  missing directory yields nothing.
\<close>

definition get_all_files_and_folders :: "path \<Rightarrow> world \<Rightarrow> (path list \<times> path list) \<times> world" where
  "get_all_files_and_folders base_path w =
     (case trees w base_path of
        None \<Rightarrow> (([], []), called (Walk base_path) w)
      | Some t \<Rightarrow>
          ((remdups (map fst (filter (\<lambda>(p, n). n \<noteq> Folder) t)),
            remdups (map fst (filter (\<lambda>(p, n). n = Folder) t))),
           called (Walk base_path) w))"

definition set_minus :: "path list \<Rightarrow> path list \<Rightarrow> path list" where
  "set_minus xs ys = filter (\<lambda>x. x \<notin> set ys) xs"

definition set_intersection :: "path list \<Rightarrow> path list \<Rightarrow> path list" where
  "set_intersection xs ys = filter (\<lambda>x. x \<in> set ys) xs"

definition set_union :: "path list \<Rightarrow> path list \<Rightarrow> path list" where
  "set_union xs ys = remdups (xs @ ys)"

subsection \<open>\<open>delete_files\<close>\<close>

definition could_not :: "path \<Rightarrow> string \<Rightarrow> string" where
  "could_not p verb = p @ '' could not be '' @ verb @ ''. Trying again next synchronization''"

fun delete_marking :: "path \<Rightarrow> path \<Rightarrow> path option \<Rightarrow> path list \<Rightarrow> path set \<times> world \<Rightarrow> error option \<times> path set \<times> world" where
  "delete_marking folder_to_delete path log_file_path [] (deleted_items, w) = (None, deleted_items, w)"
| "delete_marking folder_to_delete path log_file_path (item # items) (deleted_items, w) =
     (if sublist folder_to_delete item then
        (case log_message (join path item) DELETED log_file_path w of
           (Some e, w') \<Rightarrow> (Some e, insert item deleted_items, w')
         | (None, w') \<Rightarrow>
             delete_marking folder_to_delete path log_file_path items (insert item deleted_items, w'))
      else delete_marking folder_to_delete path log_file_path items (deleted_items, w))"

definition delete_folder :: "env \<Rightarrow> path list \<Rightarrow> path \<Rightarrow> path option \<Rightarrow> path \<Rightarrow> path set \<times> world \<Rightarrow> error option \<times> path set \<times> world" where
  "delete_folder ev items path log_file_path folder_to_delete st =
     (case st of (deleted_items, w) \<Rightarrow>
        if folder_to_delete \<notin> deleted_items then
          except_OSError
            (case shutil_rmtree ev path folder_to_delete w of
               (Some e, w') \<Rightarrow> (Some e, deleted_items, w')
             | (None, w') \<Rightarrow>
                 delete_marking folder_to_delete path log_file_path items (deleted_items, w'))
            (\<lambda>(deleted_items', w').
               case log_message (could_not (join path folder_to_delete) ''deleted'') ERROR log_file_path w' of
                 (r, w'') \<Rightarrow> (r, deleted_items', w''))
        else (None, deleted_items, w))"

definition delete_file :: "env \<Rightarrow> path \<Rightarrow> path option \<Rightarrow> path \<Rightarrow> path set \<times> world \<Rightarrow> error option \<times> path set \<times> world" where
  "delete_file ev path log_file_path file_to_delete st =
     (case st of (deleted_items, w) \<Rightarrow>
        if file_to_delete \<notin> deleted_items then
          (case except_OSError
                  (and_then (os_remove ev path file_to_delete w)
                     (log_message (join path file_to_delete) DELETED log_file_path))
                  (log_message (could_not (join path file_to_delete) ''deleted'') ERROR log_file_path) of
             (r, w') \<Rightarrow> (r, deleted_items, w'))
        else (None, deleted_items, w))"

fun for_each :: "('a \<Rightarrow> 's \<Rightarrow> error option \<times> 's) \<Rightarrow> 'a list \<Rightarrow> 's \<Rightarrow> error option \<times> 's" where
  "for_each body [] s = (None, s)"
| "for_each body (x # xs) s = and_then (body x s) (for_each body xs)"

definition delete_files :: "env \<Rightarrow> path list \<Rightarrow> path list \<Rightarrow> path \<Rightarrow> path option \<Rightarrow> world \<Rightarrow> error option \<times> world" where
  "delete_files ev all_folders all_files path log_file_path w =
     (case and_then
             (for_each (delete_folder ev (set_union all_folders all_files) path log_file_path)
                (sort_key depth all_folders) ({}, w))
             (for_each (delete_file ev path log_file_path) all_files) of
        (r, deleted_items, w') \<Rightarrow> (r, w'))"

subsection \<open>\<open>create_files\<close>\<close>

fun create_marking :: "path \<Rightarrow> path \<Rightarrow> path option \<Rightarrow> path list \<Rightarrow> path set \<times> world \<Rightarrow> error option \<times> path set \<times> world" where
  "create_marking folder_to_create destination_path log_file_path [] (created_items, w) = (None, created_items, w)"
| "create_marking folder_to_create destination_path log_file_path (item # items) (created_items, w) =
     (if sublist folder_to_create item then
        (case log_message (join destination_path item) CREATED log_file_path w of
           (Some e, w') \<Rightarrow> (Some e, insert item created_items, w')
         | (None, w') \<Rightarrow>
             create_marking folder_to_create destination_path log_file_path items (insert item created_items, w'))
      else create_marking folder_to_create destination_path log_file_path items (created_items, w))"

definition create_folder :: "env \<Rightarrow> path list \<Rightarrow> path \<Rightarrow> path \<Rightarrow> path option \<Rightarrow> path \<Rightarrow> path set \<times> world \<Rightarrow> error option \<times> path set \<times> world" where
  "create_folder ev items source_path destination_path log_file_path folder_to_create st =
     (case st of (created_items, w) \<Rightarrow>
        if folder_to_create \<notin> created_items then
          except_OSError
            (case shutil_copytree ev source_path destination_path folder_to_create w of
               (Some e, w') \<Rightarrow> (Some e, created_items, w')
             | (None, w') \<Rightarrow>
                 create_marking folder_to_create destination_path log_file_path items (created_items, w'))
            (\<lambda>(created_items', w').
               case log_message (could_not (join destination_path folder_to_create) ''created'') ERROR log_file_path w' of
                 (r, w'') \<Rightarrow> (r, created_items', w''))
        else (None, created_items, w))"

definition create_file :: "env \<Rightarrow> path \<Rightarrow> path \<Rightarrow> path option \<Rightarrow> path \<Rightarrow> path set \<times> world \<Rightarrow> error option \<times> path set \<times> world" where
  "create_file ev source_path destination_path log_file_path file_to_create st =
     (case st of (created_items, w) \<Rightarrow>
        if file_to_create \<notin> created_items then
          (case except_OSError
                  (and_then (shutil_copy2 ev source_path destination_path file_to_create w)
                     (log_message (join destination_path file_to_create) CREATED log_file_path))
                  (log_message (could_not (join destination_path file_to_create) ''created'') ERROR log_file_path) of
             (r, w') \<Rightarrow> (r, created_items, w'))
        else (None, created_items, w))"

definition create_files :: "env \<Rightarrow> path list \<Rightarrow> path list \<Rightarrow> path \<Rightarrow> path \<Rightarrow> path option \<Rightarrow> world \<Rightarrow> error option \<times> world" where
  "create_files ev all_folders all_files source_path destination_path log_file_path w =
     (case and_then
             (for_each (create_folder ev (set_union all_folders all_files) source_path destination_path log_file_path)
                (sort_key depth all_folders) ({}, w))
             (for_each (create_file ev source_path destination_path log_file_path) all_files) of
        (r, created_items, w') \<Rightarrow> (r, w'))"

subsection \<open>\<open>update_files\<close>\<close>

text \<open>The two \<open>getmtime\<close> calls stand before the \<open>try\<close>: what they raise leaves the loop.\<close>

definition update_file :: "env \<Rightarrow> path \<Rightarrow> path \<Rightarrow> path option \<Rightarrow> path \<Rightarrow> world \<Rightarrow> error option \<times> world" where
  "update_file ev source_path destination_path log_file_path file_to_update w =
     (case os_path_getmtime ev source_path file_to_update w of
        (Inl e, w1) \<Rightarrow> (Some e, w1)
      | (Inr modified_date_source, w1) \<Rightarrow>
          (case os_path_getmtime ev destination_path file_to_update w1 of
             (Inl e, w2) \<Rightarrow> (Some e, w2)
           | (Inr modified_date_destination, w2) \<Rightarrow>
               if modified_date_destination \<noteq> modified_date_source then
                 except_OSError
                   (and_then (shutil_copy2 ev source_path destination_path file_to_update w2)
                      (log_message (join destination_path file_to_update) UPDATED log_file_path))
                   (log_message (could_not (join destination_path file_to_update) ''updated'') ERROR log_file_path)
               else (None, w2)))"

definition update_files :: "env \<Rightarrow> path list \<Rightarrow> path \<Rightarrow> path \<Rightarrow> path option \<Rightarrow> world \<Rightarrow> error option \<times> world" where
  "update_files ev all_files source_path destination_path log_file_path w =
     for_each (update_file ev source_path destination_path log_file_path) all_files w"

subsection \<open>\<open>sync_folders\<close>\<close>

record diff_result =
  deleted_files :: "path list"
  deleted_folders :: "path list"
  created_files :: "path list"
  created_folders :: "path list"
  common_files :: "path list"

definition compute_diff :: "path list \<times> path list \<Rightarrow> path list \<times> path list \<Rightarrow> diff_result" where
  "compute_diff source_snapshot replica_snapshot =
     (case source_snapshot of (source_files, source_folders) \<Rightarrow>
       (case replica_snapshot of (replica_files, replica_folders) \<Rightarrow>
          \<lparr> deleted_files = set_minus replica_files source_files,
            deleted_folders = set_minus replica_folders source_folders,
            created_files = set_minus source_files replica_files,
            created_folders = set_minus source_folders replica_folders,
            common_files = set_intersection source_files replica_files \<rparr>))"

text \<open>Python's \<open>and\<close> evaluates its operands from the left and stops at the first false one.\<close>

fun all_exist :: "path list \<Rightarrow> world \<Rightarrow> bool \<times> world" where
  "all_exist [] w = (True, w)"
| "all_exist (p # ps) w =
     (case os_path_exists p w of
        (True, w') \<Rightarrow> all_exist ps w'
      | (False, w') \<Rightarrow> (False, w'))"

definition apply_diff :: "env \<Rightarrow> diff_result \<Rightarrow> path \<Rightarrow> path \<Rightarrow> path option \<Rightarrow> world \<Rightarrow> error option \<times> world" where
  "apply_diff ev d source_path replica_path log_file_path w =
     and_then (delete_files ev (deleted_folders d) (deleted_files d) replica_path log_file_path w)
       (\<lambda>w1. and_then
          (create_files ev (created_folders d) (created_files d) source_path replica_path log_file_path w1)
          (update_files ev (common_files d) source_path replica_path log_file_path))"

definition sync_folders :: "env \<Rightarrow> path \<Rightarrow> path \<Rightarrow> path \<Rightarrow> world \<Rightarrow> (error + bool) \<times> world" where
  "sync_folders ev source_path replica_path log_file_path w =
     (case all_exist [dirname log_file_path, log_file_path, source_path, replica_path] w of
        (False, w0) \<Rightarrow> (Inr False, w0)
      | (True, w0) \<Rightarrow>
          (case get_all_files_and_folders source_path w0 of (source_snapshot, w1) \<Rightarrow>
            (case get_all_files_and_folders replica_path w1 of (replica_snapshot, w2) \<Rightarrow>
               (case apply_diff ev (compute_diff source_snapshot replica_snapshot)
                       source_path replica_path (Some log_file_path) w2 of
                  (Some e, w3) \<Rightarrow> (Inl e, w3)
                | (None, w3) \<Rightarrow> (Inr True, w3)))))"

section \<open>Observations and example inputs\<close>

text \<open>
  What a cycle leaves behind is read off the world: the lines of the log file, and the
  tree under a root. The example world has a source tree at \<open>src\<close>, a replica at
  \<open>rep\<close> and an empty log file \<open>log/l.txt\<close> in the folder \<open>log\<close>.
\<close>

definition logged :: "path \<Rightarrow> world \<Rightarrow> log_line list" where
  "logged fp w = (case text_files w fp of None \<Rightarrow> [] | Some ls \<Rightarrow> ls)"

definition tree_at :: "path \<Rightarrow> world \<Rightarrow> tree" where
  "tree_at root w = (case trees w root of None \<Rightarrow> [] | Some t \<Rightarrow> t)"

definition no_refusal :: env where
  "no_refusal = \<lparr>refuses = (\<lambda>c. False), partly = (\<lambda>c p. False), dir_mtime = (\<lambda>p. 0)\<rparr>"

definition refusing :: "oscall \<Rightarrow> env" where
  "refusing c = \<lparr>refuses = (\<lambda>c'. c' = c), partly = (\<lambda>c' p. False), dir_mtime = (\<lambda>p. 0)\<rparr>"

definition example_world :: "tree \<Rightarrow> tree \<Rightarrow> world" where
  "example_world s r =
     \<lparr>trees = [''src'' \<mapsto> s, ''rep'' \<mapsto> r], dirs = (\<lambda>p. p = ''log''),
      text_files = [''log/l.txt'' \<mapsto> []], console = [], calls = []\<rparr>"

lemmas model_defs = sep_def join_def dirname_def basename_def depth_def inside_def ancestors_def
  and_then_def except_OSError_def called_def set_tree_def os_path_exists_def remove_subtree_def
  remove_part_def shutil_rmtree_def os_remove_def is_file_def write_entries_def copied_entries_def
  copied_part_def shutil_copytree_def
  parent_error_def shutil_copy2_def os_path_getmtime_def log_message_def get_all_files_and_folders_def
  set_minus_def set_intersection_def set_union_def could_not_def delete_folder_def delete_file_def
  delete_files_def create_folder_def create_file_def create_files_def update_file_def update_files_def
  compute_diff_def apply_diff_def sync_folders_def sublist_code(3) Let_def

lemmas example_defs = logged_def tree_at_def no_refusal_def refusing_def example_world_def

section \<open>Predicates of the statements and of the proofs\<close>

definition log_writable :: "path \<Rightarrow> world \<Rightarrow> bool" where
  "log_writable fp w =
     (\<not> dirs w fp \<and> trees w fp = None \<and> (text_files w fp \<noteq> None \<or> dirs w (dirname fp)))"

definition write_line :: "log_line \<Rightarrow> path \<Rightarrow> world \<Rightarrow> world" where
  "write_line msg fp w =
     w\<lparr>console := console w @ [msg], text_files := (text_files w)(fp \<mapsto> logged fp w @ [msg])\<rparr>"

definition relative :: "path \<Rightarrow> bool" where
  "relative p = (p \<noteq> [] \<and> hd p \<noteq> sep)"

definition wf_tree :: "tree \<Rightarrow> bool" where
  "wf_tree t =
     (distinct (map fst t) \<and>
      list_all (\<lambda>(q, n). relative q \<and> list_all (\<lambda>a. map_of t a = Some Folder) (ancestors q)) t)"

definition mtime_of :: "tree \<Rightarrow> path \<Rightarrow> nat option" where
  "mtime_of t p = (case map_of t p of Some (File m c) \<Rightarrow> Some m | _ \<Rightarrow> None)"

definition update_lines :: "env \<Rightarrow> path \<Rightarrow> path \<Rightarrow> tree \<Rightarrow> tree \<Rightarrow> path \<Rightarrow> log_line list" where
  "update_lines ev sp rp s r f =
     (if mtime_of r f \<noteq> mtime_of s f
      then [if refuses ev (Copy2 (join sp f) (join rp f))
            then (ERROR, could_not (join rp f) ''updated'') else (UPDATED, join rp f)]
      else [])"

definition update_calls :: "path \<Rightarrow> path \<Rightarrow> tree \<Rightarrow> tree \<Rightarrow> path \<Rightarrow> oscall list" where
  "update_calls sp rp s r f =
     [Getmtime (join sp f), Getmtime (join rp f)]
     @ (if mtime_of r f \<noteq> mtime_of s f then [Copy2 (join sp f) (join rp f)] else [])"

definition recopied :: "env \<Rightarrow> path \<Rightarrow> path \<Rightarrow> tree \<Rightarrow> tree \<Rightarrow> path \<Rightarrow> bool" where
  "recopied ev sp rp s r f =
     (mtime_of r f \<noteq> mtime_of s f \<and> \<not> refuses ev (Copy2 (join sp f) (join rp f)))"

text \<open>The lines a run appends to the log file, and the calls it makes.\<close>

definition new_lines :: "path \<Rightarrow> world \<Rightarrow> world \<Rightarrow> log_line list" where
  "new_lines fp w w' = drop (length (logged fp w)) (logged fp w')"

definition new_calls :: "world \<Rightarrow> world \<Rightarrow> oscall list" where
  "new_calls w w' = drop (length (calls w)) (calls w')"

definition log_file_deleted :: "path \<Rightarrow> world \<Rightarrow> world" where
  "log_file_deleted fp w = w\<lparr>text_files := (text_files w)(fp := None)\<rparr>"

definition write_lines :: "log_line list \<Rightarrow> path \<Rightarrow> world \<Rightarrow> world" where
  "write_lines msgs fp w = fold (\<lambda>m. write_line m fp) msgs w"

definition update_call :: "path \<Rightarrow> path \<Rightarrow> path \<Rightarrow> oscall \<Rightarrow> bool" where
  "update_call sp dp f c =
     (c = Getmtime (join sp f) \<or> c = Getmtime (join dp f) \<or> c = Copy2 (join sp f) (join dp f))"

definition cycle_diff :: "path \<Rightarrow> path \<Rightarrow> world \<Rightarrow> diff_result" where
  "cycle_diff source_path replica_path w =
     compute_diff (fst (get_all_files_and_folders source_path w))
       (fst (get_all_files_and_folders replica_path w))"

definition order_example :: world where
  "order_example = example_world
     [(''a'', Folder), (''a/b'', Folder), (''a/b/y'', File 3 ''yy''), (''n'', File 2 ''b''), (''c'', File 5 ''new'')]
     [(''c'', File 4 ''old''), (''o/p'', Folder), (''o'', Folder), (''z'', File 1 ''hi'')]"

text \<open>
  A folder's path occurs in the path of an item only when the item is the folder or lies
  inside it: on such inputs the substring test of the appliers is the ancestor test.
\<close>

definition substring_safe :: "path list \<Rightarrow> path list \<Rightarrow> bool" where
  "substring_safe folders items =
     list_all (\<lambda>F. list_all (\<lambda>i. sublist F i \<longrightarrow> i = F \<or> inside F i) items) folders"

definition deletable :: "env \<Rightarrow> path \<Rightarrow> tree \<Rightarrow> path list \<Rightarrow> path list \<Rightarrow> bool" where
  "deletable ev path t0 folders files \<longleftrightarrow>
     distinct folders \<and> distinct files
     \<and> (\<forall>f\<in>set folders. map_of t0 f = Some Folder \<and> \<not> refuses ev (Rmtree (join path f)))
     \<and> (\<forall>f\<in>set files. is_file (map_of t0 f) \<and> \<not> refuses ev (Remove (join path f)))
     \<and> (\<forall>F\<in>set folders. \<forall>q. inside F q \<and> map_of t0 q \<noteq> None \<longrightarrow> q \<in> set folders \<union> set files)
     \<and> substring_safe folders (set_union folders files)"

definition del_inv ::
  "path \<Rightarrow> path \<Rightarrow> tree \<Rightarrow> path set \<Rightarrow> world \<Rightarrow> path set \<Rightarrow> path set \<Rightarrow> path list \<Rightarrow> world \<Rightarrow> bool" where
  "del_inv path lf t0 D w0 P del ys w \<longleftrightarrow>
     trees w = (trees w0)(path \<mapsto> filter (\<lambda>(q, n). q \<notin> del) t0)
     \<and> dirs w = dirs w0
     \<and> log_writable lf w
     \<and> logged lf w = logged lf w0 @ map (\<lambda>i. (DELETED, join path i)) ys
     \<and> distinct ys \<and> set ys = del \<and> del \<subseteq> D
     \<and> (\<forall>i\<in>del. \<exists>G\<in>P. G = i \<or> inside G i)
     \<and> (\<forall>G\<in>P. \<forall>i\<in>D. (G = i \<or> inside G i) \<longrightarrow> i \<in> del)"

definition file_inv ::
  "path \<Rightarrow> path \<Rightarrow> tree \<Rightarrow> world \<Rightarrow> path set \<Rightarrow> path list \<Rightarrow> path list \<Rightarrow> world \<Rightarrow> bool" where
  "file_inv path lf t0 w0 del ys ps w \<longleftrightarrow>
     trees w = (trees w0)(path \<mapsto> filter (\<lambda>(q, n). q \<notin> del \<union> set ps) t0)
     \<and> dirs w = dirs w0
     \<and> log_writable lf w
     \<and> logged lf w = logged lf w0
          @ map (\<lambda>i. (DELETED, join path i)) (ys @ filter (\<lambda>f. f \<notin> del) ps)"

text \<open>
  Whatever the environment refuses, the creation and update appliers write to the replica
  only entries of the source, under the source's own paths, and log no \<open>DELETED\<close>
  line. The invariant: every folder of the replica that the source has under the same
  path is a folder there too, every path the source does not have is as it was, and
  the \<open>DELETED\<close> lines of the log are as they were.
\<close>

definition frame_inv :: "path \<Rightarrow> path \<Rightarrow> path \<Rightarrow> tree \<Rightarrow> tree \<Rightarrow> log_line list \<Rightarrow> world \<Rightarrow> bool" where
  "frame_inv sp rp lf s t1 L0 w \<longleftrightarrow>
     trees w sp = Some s
     \<and> (\<exists>t. trees w rp = Some t
           \<and> (\<forall>q. map_of t q = Some Folder \<longrightarrow> map_of s q \<noteq> None \<longrightarrow> map_of s q = Some Folder)
           \<and> (\<forall>q. map_of s q = None \<longrightarrow> map_of t q = map_of t1 q))
     \<and> filter (\<lambda>l. fst l = DELETED) (logged lf w) = L0"

definition files_of :: "tree \<Rightarrow> path list" where
  "files_of t = remdups (map fst (filter (\<lambda>(p, n). n \<noteq> Folder) t))"

definition folders_of :: "tree \<Rightarrow> path list" where
  "folders_of t = remdups (map fst (filter (\<lambda>(p, n). n = Folder) t))"

definition log_file_ready :: "path \<Rightarrow> world \<Rightarrow> bool" where
  "log_file_ready lf w \<longleftrightarrow>
     dirs w (dirname lf) \<and> text_files w lf \<noteq> None \<and> \<not> dirs w lf \<and> trees w lf = None"

definition nested_example :: world where
  "nested_example = example_world [] [(''A'', Folder), (''A/x'', File 1 ''hi'')]"

definition creatable :: "env \<Rightarrow> path \<Rightarrow> path \<Rightarrow> tree \<Rightarrow> tree \<Rightarrow> path list \<Rightarrow> path list \<Rightarrow> bool" where
  "creatable ev sp rp s r1 folders files \<longleftrightarrow>
     distinct folders \<and> distinct files
     \<and> (\<forall>F\<in>set folders. map_of s F = Some Folder \<and> map_of r1 F = None
           \<and> \<not> refuses ev (Copytree (join sp F) (join rp F)))
     \<and> (\<forall>f\<in>set files. is_file (map_of s f) \<and> map_of r1 f = None
           \<and> \<not> refuses ev (Copy2 (join sp f) (join rp f)))
     \<and> (\<forall>i\<in>set folders \<union> set files. \<forall>a. inside a i \<longrightarrow> map_of r1 a = Some Folder \<or> a \<in> set folders)
     \<and> (\<forall>F\<in>set folders. \<forall>q. inside F q \<and> map_of s q \<noteq> None \<longrightarrow> q \<in> set folders \<union> set files)
     \<and> substring_safe folders (set_union folders files)"

definition cre_inv ::
  "path \<Rightarrow> path \<Rightarrow> path \<Rightarrow> tree \<Rightarrow> tree \<Rightarrow> path set \<Rightarrow> path set \<Rightarrow> path set \<Rightarrow> world \<Rightarrow> bool" where
  "cre_inv sp rp lf s r1 C P cre w \<longleftrightarrow>
     trees w sp = Some s
     \<and> (\<exists>t. trees w rp = Some t \<and> distinct (map fst t)
           \<and> (\<forall>q. map_of t q = (if q \<in> cre then map_of s q else map_of r1 q)))
     \<and> log_writable lf w
     \<and> cre \<subseteq> C
     \<and> (\<forall>i\<in>cre. \<exists>G\<in>P. G = i \<or> inside G i)
     \<and> (\<forall>G\<in>P. \<forall>i\<in>C. (G = i \<or> inside G i) \<longrightarrow> i \<in> cre)"

definition cfile_inv ::
  "path \<Rightarrow> path \<Rightarrow> path \<Rightarrow> tree \<Rightarrow> tree \<Rightarrow> path set \<Rightarrow> path list \<Rightarrow> world \<Rightarrow> bool" where
  "cfile_inv sp rp lf s r1 cre ps w \<longleftrightarrow>
     trees w sp = Some s
     \<and> (\<exists>t. trees w rp = Some t \<and> distinct (map fst t)
           \<and> (\<forall>q. map_of t q = (if q \<in> cre \<union> set ps then map_of s q else map_of r1 q)))
     \<and> log_writable lf w"

definition mirrors :: "tree \<Rightarrow> tree \<Rightarrow> bool" where
  "mirrors s t \<longleftrightarrow>
     (\<forall>q. (map_of t q = Some Folder \<longleftrightarrow> map_of s q = Some Folder) \<and> mtime_of t q = mtime_of s q)"

text \<open>The calls that only look at the file system.\<close>

fun observing :: "oscall \<Rightarrow> bool" where
  "observing (Exists p) = True"
| "observing (Walk p) = True"
| "observing (Getmtime p) = True"
| "observing (Rmtree p) = False"
| "observing (Remove p) = False"
| "observing (Copytree p q) = False"
| "observing (Copy2 p q) = False"

definition quiet_step :: "world \<Rightarrow> world \<Rightarrow> bool" where
  "quiet_step w w' \<longleftrightarrow>
     trees w' = trees w \<and> dirs w' = dirs w \<and> text_files w' = text_files w
     \<and> take (length (calls w)) (calls w') = calls w
     \<and> list_all observing (drop (length (calls w)) (calls w'))"

definition stale_example :: world where
  "stale_example = example_world
     [(''a'', Folder), (''a/f'', File 5 ''x''), (''g'', File 3 ''new'')]
     [(''g'', File 1 ''old''), (''z'', File 2 ''bye'')]"

section \<open>The diff of two snapshots\<close>

text \<open>
  Claim C4. The diff is a function of the two snapshots alone: the folders to delete are
  the replica's folders minus the source's, the files to delete the replica's files minus
  the source's, the folders to create the source's folders minus the replica's, the files
  to create the source's files minus the replica's, and the common files are the
  intersection of the two file sets. No world is read and no timestamp or content enters.
\<close>

theorem compute_diff_sets:
  "set (deleted_folders (compute_diff (source_files, source_folders) (replica_files, replica_folders)))
     = set replica_folders - set source_folders
   \<and> set (deleted_files (compute_diff (source_files, source_folders) (replica_files, replica_folders)))
     = set replica_files - set source_files
   \<and> set (created_folders (compute_diff (source_files, source_folders) (replica_files, replica_folders)))
     = set source_folders - set replica_folders
   \<and> set (created_files (compute_diff (source_files, source_folders) (replica_files, replica_folders)))
     = set source_files - set replica_files
   \<and> set (common_files (compute_diff (source_files, source_folders) (replica_files, replica_folders)))
     = set source_files \<inter> set replica_files"
  by (auto simp: compute_diff_def set_minus_def set_intersection_def)

section \<open>Cycles that do not converge\<close>

text \<open>
  Claim C1 at a failing input. The source holds the folder \<open>folder10\<close>; the replica holds
  \<open>folder1\<close>, \<open>folder10\<close> and the file \<open>folder10/x\<close>. No call is refused. The cycle
  removes \<open>folder1\<close>, marks \<open>folder10/x\<close> as deleted because \<open>folder1\<close> occurs in
  its path, logs it as deleted and never removes it: the replica keeps a file the source
  does not have.
\<close>

theorem sync_keeps_file_marked_by_substring:
  "(case sync_folders no_refusal ''src'' ''rep'' ''log/l.txt''
      (example_world [(''folder10'', Folder)]
         [(''folder1'', Folder), (''folder10'', Folder), (''folder10/x'', File 1 ''hi'')]) of
      (r, w) \<Rightarrow> (r, tree_at ''rep'' w, logged ''log/l.txt'' w, calls w))
   = (Inr True,
      [(''folder10'', Folder), (''folder10/x'', File 1 ''hi'')],
      [(DELETED, ''rep/folder1''), (DELETED, ''rep/folder10/x'')],
      [Exists ''log'', Exists ''log/l.txt'', Exists ''src'', Exists ''rep'',
       Walk ''src'', Walk ''rep'', Rmtree ''rep/folder1''])"
  by (simp add: example_defs model_defs)

section \<open>Errors that leave the cycle\<close>

text \<open>
  Claim C5 at a failing input. The four monitored paths exist, the file \<open>c\<close> is in both
  trees, and the operating system refuses the timestamp read of the replica's \<open>c\<close>.
  The cycle does not return \<open>True\<close>: the \<open>PermissionError\<close> leaves \<open>sync_folders\<close>.
\<close>

theorem sync_raises_on_refused_getmtime:
  "(case sync_folders (refusing (Getmtime ''rep/c'')) ''src'' ''rep'' ''log/l.txt''
      (example_world [(''c'', File 5 ''new'')] [(''c'', File 4 ''old'')]) of
      (r, w) \<Rightarrow> (r, tree_at ''rep'' w, logged ''log/l.txt'' w))
   = (Inl PermissionError, [(''c'', File 4 ''old'')], [])"
  by (simp add: example_defs model_defs)

text \<open>
  Claim C6 at a failing input. The update applier is given the common files \<open>c\<close> and
  \<open>d\<close>, both older in the replica, and the timestamp read of the replica's \<open>c\<close> is
  refused. No \<open>ERROR\<close> line is logged, the loop does not go on to \<open>d\<close>, and the
  exception leaves \<open>update_files\<close>.
\<close>

theorem update_files_raises_on_refused_getmtime:
  "(case update_files (refusing (Getmtime ''rep/c'')) [''c'', ''d''] ''src'' ''rep'' (Some ''log/l.txt'')
      (example_world [(''c'', File 5 ''new''), (''d'', File 7 ''new'')]
         [(''c'', File 4 ''old''), (''d'', File 6 ''old'')]) of
      (r, w) \<Rightarrow> (r, tree_at ''rep'' w, logged ''log/l.txt'' w, calls w))
   = (Some PermissionError,
      [(''c'', File 4 ''old''), (''d'', File 6 ''old'')],
      [],
      [Getmtime ''src/c'', Getmtime ''rep/c''])"
  by (simp add: example_defs model_defs)

lemma log_message_writable:
  "log_writable fp w \<Longrightarrow> log_message t ty (Some fp) w = (None, write_line (ty, t) fp w)"
  by (auto simp: log_writable_def log_message_def write_line_def logged_def Let_def split: option.splits)

lemma write_line_simps [simp]:
  "trees (write_line msg fp w) = trees w"
  "dirs (write_line msg fp w) = dirs w"
  "calls (write_line msg fp w) = calls w"
  "logged fp (write_line msg fp w) = logged fp w @ [msg]"
  "log_writable fp (write_line msg fp w) = (\<not> dirs w fp \<and> trees w fp = None)"
  by (auto simp: write_line_def logged_def log_writable_def)

lemma called_simps [simp]:
  "trees (called c w) = trees w"
  "dirs (called c w) = dirs w"
  "text_files (called c w) = text_files w"
  "calls (called c w) = calls w @ [c]"
  "logged fp (called c w) = logged fp w"
  "log_writable fp (called c w) = log_writable fp w"
  by (auto simp: called_def logged_def log_writable_def)

lemma set_tree_simps [simp]:
  "trees (set_tree root t w) = (trees w)(root \<mapsto> t)"
  "dirs (set_tree root t w) = dirs w"
  "text_files (set_tree root t w) = text_files w"
  "calls (set_tree root t w) = calls w"
  "logged fp (set_tree root t w) = logged fp w"
  by (auto simp: set_tree_def logged_def)

lemma log_writable_set_tree [simp]:
  "trees w root \<noteq> None \<Longrightarrow> log_writable fp (set_tree root t w) = log_writable fp w"
  by (auto simp: log_writable_def)

lemma tree_at_simps [simp]:
  "tree_at root (called c w) = tree_at root w"
  "tree_at root (write_line msg fp w) = tree_at root w"
  "tree_at root (set_tree root' t w) = (if root = root' then t else tree_at root w)"
  by (auto simp: tree_at_def)

lemma inside_iff_ancestor: "inside a q \<longleftrightarrow> a \<in> set (ancestors q)"
proof
  assume "inside a q"
  then obtain r where q: "q = a @ sep # r" by (auto simp: inside_def prefix_def)
  have "length a < length q" "q ! length a = sep" "take (length a) q = a"
    by (simp_all add: q)
  then show "a \<in> set (ancestors q)"
    unfolding ancestors_def by (auto simp: image_iff intro!: bexI[of _ "length a"])
next
  assume "a \<in> set (ancestors q)"
  then obtain i where i: "i < length q" "q ! i = sep" "a = take i q"
    by (auto simp: ancestors_def)
  have "q = take i q @ q ! i # drop (Suc i) q" using i(1) by (simp add: id_take_nth_drop)
  then show "inside a q" unfolding inside_def prefix_def using i by (metis append_Cons append_Nil append_assoc)
qed

lemma depth_inside: "inside a q \<Longrightarrow> depth a < depth q"
  by (auto simp: inside_def prefix_def depth_def)

lemma inside_sublist: "inside a q \<Longrightarrow> sublist a q"
  by (auto simp: inside_def prefix_def sublist_def intro: exI[of _ "[]"])

lemma inside_neq: "inside a q \<Longrightarrow> a \<noteq> q"
  by (auto simp: inside_def prefix_def)

lemma inside_trans: "inside a b \<Longrightarrow> inside b c \<Longrightarrow> inside a c"
  by (auto simp: inside_def prefix_def)

lemma inside_chain:
  assumes "inside a q" "inside b q"
  shows "a = b \<or> inside a b \<or> inside b a"
proof -
  have "prefix (a @ [sep]) (b @ [sep]) \<or> prefix (b @ [sep]) (a @ [sep])"
    using assms unfolding inside_def by (rule prefix_same_cases)
  then show ?thesis
  proof
    assume "prefix (a @ [sep]) (b @ [sep])"
    then have "a @ [sep] = b @ [sep] \<or> prefix (a @ [sep]) b"
      by (simp add: prefix_snoc)
    then show ?thesis by (auto simp: inside_def prefix_def)
  next
    assume "prefix (b @ [sep]) (a @ [sep])"
    then have "b @ [sep] = a @ [sep] \<or> prefix (b @ [sep]) a"
      by (simp add: prefix_snoc)
    then show ?thesis by (auto simp: inside_def prefix_def)
  qed
qed

lemma join_inject: "relative b \<Longrightarrow> relative b' \<Longrightarrow> join a b = join a b' \<longleftrightarrow> b = b'"
  by (auto simp: join_def relative_def)

lemma dirname_cases: "dirname p = [] \<or> inside (dirname p) p \<or> \<not> relative p"
proof -
  define h where "h = rev (dropWhile (\<lambda>c. c \<noteq> sep) (rev p))"
  define u where "u = rev (takeWhile (\<lambda>c. c \<noteq> sep) (rev p))"
  have p: "p = h @ u"
    unfolding h_def u_def by (metis rev_append rev_rev_ident takeWhile_dropWhile_id)
  show ?thesis
  proof (cases "h = []")
    case True
    then show ?thesis by (simp add: dirname_def h_def[symmetric] Let_def)
  next
    case hne: False
    show ?thesis
    proof (cases "list_all (\<lambda>c. c = sep) h")
      case True
      then have "hd h = sep" using hne by (cases h) auto
      then have "hd p = sep" using p hne by simp
      then show ?thesis by (simp add: relative_def)
    next
      case False
      define d where "d = rev (dropWhile (\<lambda>c. c = sep) (rev h))"
      define v where "v = rev (takeWhile (\<lambda>c. c = sep) (rev h))"
      have dn: "dirname p = d"
        using hne False by (simp add: dirname_def h_def[symmetric] d_def Let_def)
      have h: "h = d @ v"
        unfolding d_def v_def by (metis rev_append rev_rev_ident takeWhile_dropWhile_id)
      have "rev h \<noteq> []" using hne by simp
      then have "hd (rev h) = sep"
        unfolding h_def rev_rev_ident using hd_dropWhile[of "\<lambda>c. c \<noteq> sep" "rev p"] by auto
      then have "takeWhile (\<lambda>c. c = sep) (rev h) \<noteq> []"
        using \<open>rev h \<noteq> []\<close> by (cases "rev h") auto
      then have vne: "v \<noteq> []" by (simp add: v_def)
      have "\<forall>c \<in> set v. c = sep"
        unfolding v_def using set_takeWhileD by fastforce
      then have "hd v = sep" using vne by (cases v) auto
      then obtain v' where "v = sep # v'" using vne by (cases v) auto
      then have "p = d @ sep # v' @ u" using p h by simp
      then have "inside d p" by (auto simp: inside_def prefix_def)
      then show ?thesis using dn by simp
    qed
  qed
qed

lemma wf_tree_distinct: "wf_tree t \<Longrightarrow> distinct (map fst t)"
  by (simp add: wf_tree_def)

lemma wf_tree_entry:
  assumes "wf_tree t" "map_of t q = Some n"
  shows "relative q" and "\<And>a. inside a q \<Longrightarrow> map_of t a = Some Folder"
proof -
  have mem: "(q, n) \<in> set t" using assms(2) by (rule map_of_SomeD)
  from assms(1) mem show "relative q"
    by (auto simp: wf_tree_def list_all_iff)
  fix a assume "inside a q"
  then have "a \<in> set (ancestors q)" by (simp add: inside_iff_ancestor)
  with assms(1) mem show "map_of t a = Some Folder"
    by (auto simp: wf_tree_def list_all_iff)
qed


lemma is_file_iff: "is_file x \<longleftrightarrow> (\<exists>m c. x = Some (File m c))"
  by (auto simp: is_file_def split: option.splits node.splits)

lemma parent_error_update_file:
  assumes "is_file (map_of r f)" "parent_error r g = None"
  shows "parent_error (AList.update f (File m c) r) g = None"
  using assms
  by (auto simp: parent_error_def update_conv' is_file_iff split: option.splits node.splits if_splits)

lemma update_file_step:
  assumes s: "trees w sp = Some s" and r: "trees w rp = Some r" and ne: "sp \<noteq> rp"
    and fs: "map_of s f = Some (File ms cs)" and fr: "map_of r f = Some (File mr cr)"
    and par: "parent_error r f = None"
    and lw: "log_writable lf w"
    and g1: "\<not> refuses ev (Getmtime (join sp f))" and g2: "\<not> refuses ev (Getmtime (join rp f))"
  shows "\<exists>w'. update_file ev sp rp (Some lf) f w = (None, w')
     \<and> trees w' = (trees w)(rp \<mapsto> (if recopied ev sp rp s r f then AList.update f (File ms cs) r else r))
     \<and> dirs w' = dirs w
     \<and> calls w' = calls w @ update_calls sp rp s r f
     \<and> logged lf w' = logged lf w @ update_lines ev sp rp s r f
     \<and> log_writable lf w'"
proof -
  let ?w2 = "called (Getmtime (join rp f)) (called (Getmtime (join sp f)) w)"
  have m1: "os_path_getmtime ev sp f w = (Inr ms, called (Getmtime (join sp f)) w)"
    using s fs g1 by (simp add: os_path_getmtime_def Let_def)
  have m2: "os_path_getmtime ev rp f (called (Getmtime (join sp f)) w) = (Inr mr, ?w2)"
    using r fr g2 by (simp add: os_path_getmtime_def Let_def)
  have lw2: "log_writable lf ?w2" using lw by simp
  have nl: "\<not> dirs w lf" "trees w lf = None" using lw by (auto simp: log_writable_def)
  have rpne: "rp \<noteq> lf" using r nl by auto
  show ?thesis
  proof (cases "mr = ms")
    case True
    then show ?thesis
      using m1 m2 lw2 r fs fr
      by (simp add: update_file_def update_calls_def update_lines_def recopied_def mtime_of_def
          map_upd_triv)
  next
    case diff: False
    let ?c = "Copy2 (join sp f) (join rp f)"
    show ?thesis
    proof (cases "refuses ev ?c")
      case True
      have cp: "shutil_copy2 ev sp rp f ?w2 = (Some PermissionError, called ?c ?w2)"
        using True by (simp add: shutil_copy2_def Let_def)
      have "log_writable lf (called ?c ?w2)" using lw by simp
      then show ?thesis
        using m1 m2 diff True cp r fs fr nl
        by (simp add: update_file_def and_then_def except_OSError_def log_message_writable
            update_calls_def update_lines_def recopied_def mtime_of_def map_upd_triv)
    next
      case False
      have cp: "shutil_copy2 ev sp rp f ?w2
                 = (None, set_tree rp (AList.update f (File ms cs) r) (called ?c ?w2))"
        using False s r fs fr par ne by (simp add: shutil_copy2_def Let_def)
      have "log_writable lf (set_tree rp (AList.update f (File ms cs) r) (called ?c ?w2))"
        using lw r by simp
      then show ?thesis
        using m1 m2 diff False cp r fs fr nl rpne
        by (simp add: update_file_def and_then_def except_OSError_def log_message_writable
            update_calls_def update_lines_def recopied_def mtime_of_def)
    qed
  qed
qed

lemma mtime_of_update_other: "g \<noteq> f \<Longrightarrow> mtime_of (AList.update f n r) g = mtime_of r g"
  by (simp add: mtime_of_def update_conv')

lemma update_files_effect:
  assumes "trees w sp = Some s" "trees w rp = Some r" "sp \<noteq> rp" "distinct fs"
    and "\<forall>f\<in>set fs. is_file (map_of s f) \<and> is_file (map_of r f) \<and> parent_error r f = None"
    and "log_writable lf w"
    and "\<forall>f\<in>set fs. \<not> refuses ev (Getmtime (join sp f)) \<and> \<not> refuses ev (Getmtime (join rp f))"
  shows "\<exists>w' r'. update_files ev fs sp rp (Some lf) w = (None, w')
     \<and> trees w' = (trees w)(rp \<mapsto> r')
     \<and> (\<forall>q. map_of r' q = (if q \<in> set fs \<and> recopied ev sp rp s r q then map_of s q else map_of r q))
     \<and> (distinct (map fst r) \<longrightarrow> distinct (map fst r'))
     \<and> dirs w' = dirs w
     \<and> calls w' = calls w @ concat (map (update_calls sp rp s r) fs)
     \<and> logged lf w' = logged lf w @ concat (map (update_lines ev sp rp s r) fs)
     \<and> log_writable lf w'"
  using assms
proof (induction fs arbitrary: w r)
  case Nil
  then show ?case
    by (intro exI[of _ w] exI[of _ r]) (auto simp: update_files_def fun_eq_iff)
next
  case (Cons f fs)
  from Cons.prems obtain ms cs mr cr where
    fs: "map_of s f = Some (File ms cs)" and fr: "map_of r f = Some (File mr cr)"
    by (auto simp: is_file_iff)
  define r1 where "r1 = (if recopied ev sp rp s r f then AList.update f (File ms cs) r else r)"
  have par: "parent_error r f = None" using Cons.prems(5) by simp
  have g1: "\<not> refuses ev (Getmtime (join sp f))" and g2: "\<not> refuses ev (Getmtime (join rp f))"
    using Cons.prems(7) by simp_all
  from update_file_step[OF Cons.prems(1,2,3) fs fr par Cons.prems(6) g1 g2]
  obtain w1 where w1: "update_file ev sp rp (Some lf) f w = (None, w1)"
    "trees w1 = (trees w)(rp \<mapsto> r1)" "dirs w1 = dirs w"
    "calls w1 = calls w @ update_calls sp rp s r f"
    "logged lf w1 = logged lf w @ update_lines ev sp rp s r f"
    "log_writable lf w1"
    unfolding r1_def by blast
  have notin: "f \<notin> set fs" and dist: "distinct fs" using Cons.prems(4) by auto
  have same: "mtime_of r1 g = mtime_of r g" if "g \<in> set fs" for g
  proof -
    have "g \<noteq> f" using that notin by auto
    then show ?thesis by (simp add: r1_def mtime_of_update_other)
  qed
  have mo: "map_of r1 g = map_of r g" if "g \<noteq> f" for g
    using that by (auto simp: r1_def update_conv')
  have pre: "\<forall>g\<in>set fs. is_file (map_of s g) \<and> is_file (map_of r1 g) \<and> parent_error r1 g = None"
  proof
    fix g assume g: "g \<in> set fs"
    then have "g \<noteq> f" using notin by auto
    moreover have "is_file (map_of r f)" using fr by (simp add: is_file_iff)
    ultimately show "is_file (map_of s g) \<and> is_file (map_of r1 g) \<and> parent_error r1 g = None"
      using Cons.prems(5) g mo by (auto simp: r1_def parent_error_update_file)
  qed
  have t1: "trees w1 sp = Some s" "trees w1 rp = Some r1"
    using w1(2) Cons.prems(1,3) by auto
  have gs: "\<forall>f\<in>set fs. \<not> refuses ev (Getmtime (join sp f)) \<and> \<not> refuses ev (Getmtime (join rp f))"
    using Cons.prems(7) by simp
  from Cons.IH[OF t1 Cons.prems(3) dist pre w1(6) gs]
  obtain w' r' where w': "update_files ev fs sp rp (Some lf) w1 = (None, w')"
    "trees w' = (trees w1)(rp \<mapsto> r')"
    "\<forall>q. map_of r' q = (if q \<in> set fs \<and> recopied ev sp rp s r1 q then map_of s q else map_of r1 q)"
    "distinct (map fst r1) \<longrightarrow> distinct (map fst r')"
    "dirs w' = dirs w1"
    "calls w' = calls w1 @ concat (map (update_calls sp rp s r1) fs)"
    "logged lf w' = logged lf w1 @ concat (map (update_lines ev sp rp s r1) fs)"
    "log_writable lf w'"
    by blast
  have c1: "map (update_calls sp rp s r1) fs = map (update_calls sp rp s r) fs"
    by (rule map_cong) (auto simp: update_calls_def same)
  have c2: "map (update_lines ev sp rp s r1) fs = map (update_lines ev sp rp s r) fs"
    by (rule map_cong) (auto simp: update_lines_def same)
  have c3: "recopied ev sp rp s r1 q = recopied ev sp rp s r q" if "q \<in> set fs" for q
    using that by (simp add: recopied_def same)
  have run: "update_files ev (f # fs) sp rp (Some lf) w = (None, w')"
    using w1(1) w'(1) by (simp add: update_files_def and_then_def)
  have tr: "trees w' = (trees w)(rp \<mapsto> r')" using w'(2) w1(2) by simp
  have mp: "\<forall>q. map_of r' q = (if q \<in> set (f # fs) \<and> recopied ev sp rp s r q then map_of s q else map_of r q)"
  proof
    fix q
    show "map_of r' q = (if q \<in> set (f # fs) \<and> recopied ev sp rp s r q then map_of s q else map_of r q)"
    proof (cases "q = f")
      case True
      then show ?thesis using w'(3) notin fs by (auto simp: r1_def update_conv')
    next
      case False
      then show ?thesis using w'(3) c3 mo by auto
    qed
  qed
  have di: "distinct (map fst r) \<longrightarrow> distinct (map fst r')"
    using w'(4) by (auto simp: r1_def distinct_update)
  show ?case
    using run tr mp di w'(5,6,7,8) w1(3,4,5) c1 c2 by (intro exI[of _ w'] exI[of _ r']) simp
qed

section \<open>The update applier\<close>







section \<open>The log file\<close>

lemma all_exist_log_missing:
  assumes "text_files w fp = None" "dirs w (dirname fp)" "\<not> dirs w fp" "trees w fp = None"
  shows "all_exist [dirname fp, fp, sp, rp] w = (False, called (Exists fp) (called (Exists (dirname fp)) w))"
  using assms by (simp add: os_path_exists_def)

text \<open>
  Claim C10. When the log file is missing and its folder exists, \<open>log_message\<close> raises
  nothing and leaves a log file holding exactly the new line: append mode creates the
  file. A cycle started in that state returns \<open>False\<close> after the existence checks of the
  folder and of the file, and does not create the file: the missing file is fatal only
  at the start of a cycle.
\<close>

theorem log_message_creates_missing_file:
  assumes "text_files w fp = None" and "dirs w (dirname fp)" and "\<not> dirs w fp" and "trees w fp = None"
  shows "fst (log_message msg_text msg_type (Some fp) w) = None
    \<and> text_files (snd (log_message msg_text msg_type (Some fp) w)) fp = Some [(msg_type, msg_text)]
    \<and> fst (sync_folders ev source_path replica_path fp w) = Inr False
    \<and> text_files (snd (sync_folders ev source_path replica_path fp w)) fp = None
    \<and> new_calls w (snd (sync_folders ev source_path replica_path fp w)) = [Exists (dirname fp), Exists fp]"
proof -
  have "log_message msg_text msg_type (Some fp) w
      = (None, w\<lparr>console := console w @ [(msg_type, msg_text)],
                 text_files := (text_files w)(fp \<mapsto> [(msg_type, msg_text)])\<rparr>)"
    using assms by (simp add: log_message_def Let_def)
  moreover have "sync_folders ev source_path replica_path fp w
      = (Inr False, called (Exists fp) (called (Exists (dirname fp)) w))"
    using all_exist_log_missing[OF assms] by (simp add: sync_folders_def)
  ultimately show ?thesis using assms(1) by (simp add: new_calls_def)
qed

theorem log_message_creates_missing_file_witness:
  "fst (log_message ''rep/a'' DELETED (Some ''log/l.txt'')
          (log_file_deleted ''log/l.txt'' (example_world [] [(''a'', File 1 ''x'')]))) = None
   \<and> text_files (snd (log_message ''rep/a'' DELETED (Some ''log/l.txt'')
          (log_file_deleted ''log/l.txt'' (example_world [] [(''a'', File 1 ''x'')])))) ''log/l.txt''
        = Some [(DELETED, ''rep/a'')]
   \<and> fst (sync_folders no_refusal ''src'' ''rep'' ''log/l.txt''
          (log_file_deleted ''log/l.txt'' (example_world [] [(''a'', File 1 ''x'')]))) = Inr False
   \<and> tree_at ''rep'' (snd (sync_folders no_refusal ''src'' ''rep'' ''log/l.txt''
          (log_file_deleted ''log/l.txt'' (example_world [] [(''a'', File 1 ''x'')]))))
        = [(''a'', File 1 ''x'')]"
proof -
  let ?w = "log_file_deleted ''log/l.txt'' (example_world [] [(''a'', File 1 ''x'')])"
  have d: "dirname ''log/l.txt'' = ''log''" by (simp add: dirname_def sep_def)
  have h: "text_files ?w ''log/l.txt'' = None" "dirs ?w (dirname ''log/l.txt'')"
    "\<not> dirs ?w ''log/l.txt''" "trees ?w ''log/l.txt'' = None"
    by (simp_all add: d example_world_def log_file_deleted_def)
  note t = log_message_creates_missing_file[OF h, of "''rep/a''" DELETED no_refusal "''src''" "''rep''"]
  have "sync_folders no_refusal ''src'' ''rep'' ''log/l.txt'' ?w
      = (Inr False, called (Exists ''log/l.txt'') (called (Exists ''log'') ?w))"
    using all_exist_log_missing[OF h, of "''src''" "''rep''"] by (simp add: sync_folders_def d)
  then have "tree_at ''rep'' (snd (sync_folders no_refusal ''src'' ''rep'' ''log/l.txt'' ?w))
      = [(''a'', File 1 ''x'')]"
    by (simp add: example_world_def tree_at_def called_def log_file_deleted_def)
  then show ?thesis using t by simp
qed

section \<open>Marking by substring\<close>

lemma write_lines_simps [simp]:
  "write_lines [] fp w = w"
  "write_lines (m # ms) fp w = write_lines ms fp (write_line m fp w)"
  by (simp_all add: write_lines_def)

lemma write_lines_proj [simp]:
  "trees (write_lines ms fp w) = trees w"
  "dirs (write_lines ms fp w) = dirs w"
  "calls (write_lines ms fp w) = calls w"
  "logged fp (write_lines ms fp w) = logged fp w @ ms"
  "tree_at root (write_lines ms fp w) = tree_at root w"
  by (induction ms arbitrary: w) auto

lemma log_writable_write_line:
  "log_writable fp w \<Longrightarrow> log_writable fp (write_line m fp w)"
  unfolding write_line_simps(5) by (simp add: log_writable_def)

lemma log_writable_write_lines [simp]:
  "log_writable fp w \<Longrightarrow> log_writable fp (write_lines ms fp w)"
  by (induction ms arbitrary: w) (simp_all add: log_writable_write_line del: write_line_simps(5))

lemma delete_marking_eq:
  "log_writable lf w \<Longrightarrow>
   delete_marking folder path (Some lf) items (marked, w)
     = (None, marked \<union> {i \<in> set items. sublist folder i},
        write_lines (map (\<lambda>i. (DELETED, join path i)) (filter (sublist folder) items)) lf w)"
proof (induction items arbitrary: marked w)
  case Nil
  then show ?case by simp
next
  case (Cons i items)
  show ?case
  proof (cases "sublist folder i")
    case True
    have "log_writable lf (write_line (DELETED, join path i) lf w)"
      using Cons.prems by (rule log_writable_write_line)
    from Cons.IH[OF this, of "insert i marked"] True Cons.prems
    show ?thesis by (auto simp: log_message_writable)
  next
    case False
    from Cons.IH[OF Cons.prems, of marked] False show ?thesis by auto
  qed
qed

lemma create_marking_eq:
  "log_writable lf w \<Longrightarrow>
   create_marking folder path (Some lf) items (marked, w)
     = (None, marked \<union> {i \<in> set items. sublist folder i},
        write_lines (map (\<lambda>i. (CREATED, join path i)) (filter (sublist folder) items)) lf w)"
proof (induction items arbitrary: marked w)
  case Nil
  then show ?case by simp
next
  case (Cons i items)
  show ?case
  proof (cases "sublist folder i")
    case True
    have "log_writable lf (write_line (CREATED, join path i) lf w)"
      using Cons.prems by (rule log_writable_write_line)
    from Cons.IH[OF this, of "insert i marked"] True Cons.prems
    show ?thesis by (auto simp: log_message_writable)
  next
    case False
    from Cons.IH[OF Cons.prems, of marked] False show ?thesis by auto
  qed
qed



section \<open>The calls of a cycle\<close>

lemma sorted_subseq:
  assumes "subseq ys xs" "sorted (map f xs)"
  shows "sorted (map f ys)"
proof -
  have "subseq (map f ys) (map f xs)" using assms(1) by (rule subseq_map)
  then obtain N where "map f ys = nths (map f xs) N" by (auto simp: subseq_conv_nths)
  then show ?thesis using assms(2) by (simp add: sorted_nths)
qed

lemma for_each_trace:
  assumes step: "\<And>x s r s'. body x s = (r, s') \<Longrightarrow> cl s' = cl s \<or> cl s' = cl s @ [c x]"
  shows "for_each body xs s = (r, s') \<Longrightarrow> \<exists>ys. subseq ys xs \<and> cl s' = cl s @ map c ys"
proof (induction xs arbitrary: s)
  case Nil
  then show ?case by (auto intro: exI[of _ "[]"])
next
  case (Cons x xs)
  obtain r1 s1 where b: "body x s = (r1, s1)" by fastforce
  from step[OF b] obtain y1 where y1: "subseq y1 [x]" "cl s1 = cl s @ map c y1"
  proof
    assume "cl s1 = cl s"
    then show ?thesis using that[of "[]"] by simp
  next
    assume "cl s1 = cl s @ [c x]"
    then show ?thesis using that[of "[x]"] by simp
  qed
  show ?case
  proof (cases r1)
    case None
    then have "for_each body xs s1 = (r, s')" using Cons.prems b by (simp add: and_then_def)
    from Cons.IH[OF this] obtain ys where ys: "subseq ys xs" "cl s' = cl s1 @ map c ys" by blast
    have "subseq (y1 @ ys) ([x] @ xs)" using y1(1) ys(1) by (rule list_emb_append_mono)
    then show ?thesis using y1(2) ys(2) by (intro exI[of _ "y1 @ ys"]) simp
  next
    case (Some e)
    then have "s' = s1" using Cons.prems b by (simp add: and_then_def)
    moreover have "subseq (y1 @ []) ([x] @ xs)" using y1(1) by (rule list_emb_append_mono) simp
    then have "subseq y1 (x # xs)" by simp
    ultimately show ?thesis using y1(2) by blast
  qed
qed

lemma for_each_trace_all:
  assumes step: "\<And>x s r s'. body x s = (r, s') \<Longrightarrow> \<exists>cs. cl s' = cl s @ cs \<and> list_all (Q x) cs"
  shows "for_each body xs s = (r, s')
    \<Longrightarrow> \<exists>cs. cl s' = cl s @ cs \<and> list_all (\<lambda>c. \<exists>x\<in>set xs. Q x c) cs"
proof (induction xs arbitrary: s)
  case Nil
  then show ?case by simp
next
  case (Cons x xs)
  obtain r1 s1 where b: "body x s = (r1, s1)" by fastforce
  from step[OF b] obtain c1 where c1: "cl s1 = cl s @ c1" "list_all (Q x) c1" by blast
  have q1: "list_all (\<lambda>c. \<exists>x\<in>set (x # xs). Q x c) c1"
    using c1(2) by (auto simp: list_all_iff)
  show ?case
  proof (cases r1)
    case None
    then have "for_each body xs s1 = (r, s')" using Cons.prems b by (simp add: and_then_def)
    from Cons.IH[OF this] obtain cs where cs: "cl s' = cl s1 @ cs"
      "list_all (\<lambda>c. \<exists>x\<in>set xs. Q x c) cs" by blast
    have "list_all (\<lambda>c. \<exists>x\<in>set (x # xs). Q x c) cs"
      using cs(2) by (auto simp: list_all_iff)
    then show ?thesis using c1(1) cs(1) q1 by (intro exI[of _ "c1 @ cs"]) simp
  next
    case (Some e)
    then have "s' = s1" using Cons.prems b by (simp add: and_then_def)
    then show ?thesis using c1(1) q1 by blast
  qed
qed

lemma log_message_calls [simp]: "calls (snd (log_message t ty fp w)) = calls w"
  by (auto simp: log_message_def Let_def split: option.splits)

lemma log_message_calls': "log_message t ty fp w = (r, w') \<Longrightarrow> calls w' = calls w"
  using log_message_calls[of t ty fp w] by simp

lemma shutil_rmtree_calls: "shutil_rmtree ev root rel w = (r, w') \<Longrightarrow> calls w' = calls w @ [Rmtree (join root rel)]"
  by (auto simp: shutil_rmtree_def Let_def split: if_splits option.splits node.splits)

lemma os_remove_calls: "os_remove ev root rel w = (r, w') \<Longrightarrow> calls w' = calls w @ [Remove (join root rel)]"
  by (auto simp: os_remove_def Let_def split: if_splits option.splits node.splits)

lemma shutil_copytree_calls:
  "shutil_copytree ev sroot droot rel w = (r, w')
    \<Longrightarrow> calls w' = calls w @ [Copytree (join sroot rel) (join droot rel)]"
  by (auto simp: shutil_copytree_def Let_def split: if_splits option.splits node.splits)

lemma shutil_copy2_calls:
  "shutil_copy2 ev sroot droot rel w = (r, w')
    \<Longrightarrow> calls w' = calls w @ [Copy2 (join sroot rel) (join droot rel)]"
  by (auto simp: shutil_copy2_def Let_def split: if_splits option.splits node.splits)

lemma os_path_getmtime_calls:
  "os_path_getmtime ev root rel w = (r, w') \<Longrightarrow> calls w' = calls w @ [Getmtime (join root rel)]"
  by (auto simp: os_path_getmtime_def Let_def split: if_splits option.splits node.splits)

lemma delete_marking_calls:
  "delete_marking folder path lf items (marked, w) = (r, marked', w') \<Longrightarrow> calls w' = calls w"
proof (induction items arbitrary: marked w)
  case Nil
  then show ?case by simp
next
  case (Cons i items)
  then show ?case
    by (auto split: if_splits prod.splits option.splits dest!: log_message_calls')
qed

lemma create_marking_calls:
  "create_marking folder path lf items (marked, w) = (r, marked', w') \<Longrightarrow> calls w' = calls w"
proof (induction items arbitrary: marked w)
  case Nil
  then show ?case by simp
next
  case (Cons i items)
  then show ?case
    by (auto split: if_splits prod.splits option.splits dest!: log_message_calls')
qed

lemma handler_calls:
  assumes "except_OSError (rb :: error option \<times> path set \<times> world)
      (\<lambda>(m, w'). case log_message t ty lf w' of (r, w'') \<Rightarrow> (r, m, w'')) = (r, st')"
  shows "calls (snd st') = calls (snd (snd rb))"
proof -
  obtain r2 m2 w2 where rb: "rb = (r2, m2, w2)" by (cases rb)
  show ?thesis
  proof (cases r2)
    case None
    then show ?thesis using assms rb by (simp add: except_OSError_def)
  next
    case (Some e)
    obtain r3 w3 where l: "log_message t ty lf w2 = (r3, w3)" by fastforce
    have "calls w3 = calls w2" using l by (rule log_message_calls')
    then show ?thesis using assms rb Some l by (auto simp: except_OSError_def)
  qed
qed

lemma delete_folder_calls:
  assumes "delete_folder ev items path lf f st = (r, st')"
  shows "calls (snd st') = calls (snd st) \<or> calls (snd st') = calls (snd st) @ [Rmtree (join path f)]"
proof -
  obtain del w where st: "st = (del, w)" by (cases st)
  show ?thesis
  proof (cases "f \<in> del")
    case True
    then show ?thesis using assms st by (auto simp: delete_folder_def)
  next
    case False
    define rb where "rb = (case shutil_rmtree ev path f w of
          (Some e, w') \<Rightarrow> (Some e, del, w')
        | (None, w') \<Rightarrow> delete_marking f path lf items (del, w'))"
    obtain r1 w1 where rm: "shutil_rmtree ev path f w = (r1, w1)" by fastforce
    have c1: "calls w1 = calls w @ [Rmtree (join path f)]" using rm by (rule shutil_rmtree_calls)
    obtain r2 m2 w2 where rb: "rb = (r2, m2, w2)" by (cases rb)
    have c2: "calls w2 = calls w1"
    proof (cases r1)
      case None
      then have "delete_marking f path lf items (del, w1) = (r2, m2, w2)"
        using rb rm by (simp add: rb_def)
      then show ?thesis by (rule delete_marking_calls)
    next
      case (Some e)
      then show ?thesis using rb rm by (simp add: rb_def)
    qed
    have "except_OSError rb
        (\<lambda>(m, w'). case log_message (could_not (join path f) ''deleted'') ERROR lf w' of
            (r, w'') \<Rightarrow> (r, m, w'')) = (r, st')"
      using assms st False by (simp add: delete_folder_def rb_def)
    from handler_calls[OF this] show ?thesis using rb c1 c2 st by simp
  qed
qed

lemma create_folder_calls:
  assumes "create_folder ev items sp dp lf f st = (r, st')"
  shows "calls (snd st') = calls (snd st)
    \<or> calls (snd st') = calls (snd st) @ [Copytree (join sp f) (join dp f)]"
proof -
  obtain cre w where st: "st = (cre, w)" by (cases st)
  show ?thesis
  proof (cases "f \<in> cre")
    case True
    then show ?thesis using assms st by (auto simp: create_folder_def)
  next
    case False
    define rb where "rb = (case shutil_copytree ev sp dp f w of
          (Some e, w') \<Rightarrow> (Some e, cre, w')
        | (None, w') \<Rightarrow> create_marking f dp lf items (cre, w'))"
    obtain r1 w1 where cp: "shutil_copytree ev sp dp f w = (r1, w1)" by fastforce
    have c1: "calls w1 = calls w @ [Copytree (join sp f) (join dp f)]"
      using cp by (rule shutil_copytree_calls)
    obtain r2 m2 w2 where rb: "rb = (r2, m2, w2)" by (cases rb)
    have c2: "calls w2 = calls w1"
    proof (cases r1)
      case None
      then have "create_marking f dp lf items (cre, w1) = (r2, m2, w2)"
        using rb cp by (simp add: rb_def)
      then show ?thesis by (rule create_marking_calls)
    next
      case (Some e)
      then show ?thesis using rb cp by (simp add: rb_def)
    qed
    have "except_OSError rb
        (\<lambda>(m, w'). case log_message (could_not (join dp f) ''created'') ERROR lf w' of
            (r, w'') \<Rightarrow> (r, m, w'')) = (r, st')"
      using assms st False by (simp add: create_folder_def rb_def)
    from handler_calls[OF this] show ?thesis using rb c1 c2 st by simp
  qed
qed

lemma guarded_calls:
  assumes "except_OSError (and_then (op w) (log_message t1 ty1 lf)) (log_message t2 ty2 lf) = (r, w')"
    and "\<And>r1 w1. op w = (r1, w1) \<Longrightarrow> calls w1 = calls w @ [c]"
  shows "calls w' = calls w @ [c]"
proof -
  obtain r1 w1 where o: "op w = (r1, w1)" by fastforce
  have c1: "calls w1 = calls w @ [c]" using o by (rule assms(2))
  show ?thesis
  proof (cases r1)
    case None
    obtain r2 w2 where l: "log_message t1 ty1 lf w1 = (r2, w2)" by fastforce
    have "calls w2 = calls w1" using l by (rule log_message_calls')
    then show ?thesis using assms(1) o None l c1
      by (cases r2) (auto simp: except_OSError_def and_then_def dest!: log_message_calls')
  next
    case (Some e)
    then show ?thesis using assms(1) o c1
      by (auto simp: except_OSError_def and_then_def dest!: log_message_calls')
  qed
qed

lemma delete_file_calls:
  assumes "delete_file ev path lf f st = (r, st')"
  shows "calls (snd st') = calls (snd st) \<or> calls (snd st') = calls (snd st) @ [Remove (join path f)]"
proof -
  obtain del w where st: "st = (del, w)" by (cases st)
  show ?thesis
  proof (cases "f \<in> del")
    case True
    then show ?thesis using assms st by (auto simp: delete_file_def)
  next
    case False
    obtain r2 w2 where g: "except_OSError
        (and_then (os_remove ev path f w) (log_message (join path f) DELETED lf))
        (log_message (could_not (join path f) ''deleted'') ERROR lf) = (r2, w2)" by fastforce
    have "calls w2 = calls w @ [Remove (join path f)]"
      using g by (rule guarded_calls) (rule os_remove_calls)
    then show ?thesis using assms st False g by (auto simp: delete_file_def)
  qed
qed

lemma create_file_calls:
  assumes "create_file ev sp dp lf f st = (r, st')"
  shows "calls (snd st') = calls (snd st)
    \<or> calls (snd st') = calls (snd st) @ [Copy2 (join sp f) (join dp f)]"
proof -
  obtain cre w where st: "st = (cre, w)" by (cases st)
  show ?thesis
  proof (cases "f \<in> cre")
    case True
    then show ?thesis using assms st by (auto simp: create_file_def)
  next
    case False
    obtain r2 w2 where g: "except_OSError
        (and_then (shutil_copy2 ev sp dp f w) (log_message (join dp f) CREATED lf))
        (log_message (could_not (join dp f) ''created'') ERROR lf) = (r2, w2)" by fastforce
    have "calls w2 = calls w @ [Copy2 (join sp f) (join dp f)]"
      using g by (rule guarded_calls) (rule shutil_copy2_calls)
    then show ?thesis using assms st False g by (auto simp: create_file_def)
  qed
qed

lemma update_file_calls:
  assumes "update_file ev sp dp lf f w = (r, w')"
  shows "\<exists>cs. calls w' = calls w @ cs \<and> list_all (update_call sp dp f) cs"
proof -
  obtain m1 w1 where g1: "os_path_getmtime ev sp f w = (m1, w1)" by fastforce
  have c1: "calls w1 = calls w @ [Getmtime (join sp f)]" using g1 by (rule os_path_getmtime_calls)
  show ?thesis
  proof (cases m1)
    case (Inl e)
    then have "w' = w1" using assms g1 by (simp add: update_file_def)
    then show ?thesis using c1 by (auto simp: update_call_def)
  next
    case (Inr ms)
    obtain m2 w2 where g2: "os_path_getmtime ev dp f w1 = (m2, w2)" by fastforce
    have c2: "calls w2 = calls w @ [Getmtime (join sp f), Getmtime (join dp f)]"
      using os_path_getmtime_calls[OF g2] c1 by simp
    show ?thesis
    proof (cases m2)
      case (Inl e)
      then have "w' = w2" using assms g1 g2 Inr by (simp add: update_file_def)
      then show ?thesis using c2 by (auto simp: update_call_def)
    next
      case md: (Inr md)
      show ?thesis
      proof (cases "md = ms")
        case True
        then have "w' = w2" using assms g1 g2 Inr md by (simp add: update_file_def)
        then show ?thesis using c2 by (auto simp: update_call_def)
      next
        case False
        then have g: "except_OSError
            (and_then (shutil_copy2 ev sp dp f w2) (log_message (join dp f) UPDATED lf))
            (log_message (could_not (join dp f) ''updated'') ERROR lf) = (r, w')"
          using assms g1 g2 Inr md by (simp add: update_file_def)
        have "calls w' = calls w2 @ [Copy2 (join sp f) (join dp f)]"
          using g by (rule guarded_calls) (rule shutil_copy2_calls)
        then show ?thesis using c2 by (auto simp: update_call_def)
      qed
    qed
  qed
qed

lemma delete_files_calls:
  assumes "delete_files ev folders files path lf w = (r, w')"
  shows "\<exists>fs gs. subseq fs (sort_key depth folders) \<and> subseq gs files
    \<and> calls w' = calls w @ map (\<lambda>f. Rmtree (join path f)) fs @ map (\<lambda>f. Remove (join path f)) gs"
proof -
  let ?A = "delete_folder ev (set_union folders files) path lf"
  let ?B = "delete_file ev path lf"
  obtain r1 s1 where a: "for_each ?A (sort_key depth folders) ({}, w) = (r1, s1)"
    by (cases "for_each ?A (sort_key depth folders) ({}, w)")
  from for_each_trace[where cl = "\<lambda>s. calls (snd s)" and c = "\<lambda>f. Rmtree (join path f)", OF _ a]
  obtain fs where fs: "subseq fs (sort_key depth folders)"
    "calls (snd s1) = calls w @ map (\<lambda>f. Rmtree (join path f)) fs"
    using delete_folder_calls by fastforce
  show ?thesis
  proof (cases r1)
    case None
    obtain r2 s2 where b: "for_each ?B files s1 = (r2, s2)"
      by (cases "for_each ?B files s1")
    from for_each_trace[where cl = "\<lambda>s. calls (snd s)" and c = "\<lambda>f. Remove (join path f)", OF _ b]
    obtain gs where gs: "subseq gs files"
      "calls (snd s2) = calls (snd s1) @ map (\<lambda>f. Remove (join path f)) gs"
      using delete_file_calls by fastforce
    have "w' = snd s2" using assms a b None
      by (auto simp: delete_files_def and_then_def split: prod.splits)
    then show ?thesis using fs gs by auto
  next
    case (Some e)
    then have "w' = snd s1" using assms a
      by (auto simp: delete_files_def and_then_def split: prod.splits)
    then show ?thesis using fs by (intro exI[of _ fs] exI[of _ "[]"]) simp
  qed
qed

lemma create_files_calls:
  assumes "create_files ev folders files sp dp lf w = (r, w')"
  shows "\<exists>fs gs. subseq fs (sort_key depth folders) \<and> subseq gs files
    \<and> calls w' = calls w @ map (\<lambda>f. Copytree (join sp f) (join dp f)) fs
         @ map (\<lambda>f. Copy2 (join sp f) (join dp f)) gs"
proof -
  let ?A = "create_folder ev (set_union folders files) sp dp lf"
  let ?B = "create_file ev sp dp lf"
  obtain r1 s1 where a: "for_each ?A (sort_key depth folders) ({}, w) = (r1, s1)"
    by (cases "for_each ?A (sort_key depth folders) ({}, w)")
  from for_each_trace[where cl = "\<lambda>s. calls (snd s)" and c = "\<lambda>f. Copytree (join sp f) (join dp f)", OF _ a]
  obtain fs where fs: "subseq fs (sort_key depth folders)"
    "calls (snd s1) = calls w @ map (\<lambda>f. Copytree (join sp f) (join dp f)) fs"
    using create_folder_calls by fastforce
  show ?thesis
  proof (cases r1)
    case None
    obtain r2 s2 where b: "for_each ?B files s1 = (r2, s2)"
      by (cases "for_each ?B files s1")
    from for_each_trace[where cl = "\<lambda>s. calls (snd s)" and c = "\<lambda>f. Copy2 (join sp f) (join dp f)", OF _ b]
    obtain gs where gs: "subseq gs files"
      "calls (snd s2) = calls (snd s1) @ map (\<lambda>f. Copy2 (join sp f) (join dp f)) gs"
      using create_file_calls by fastforce
    have "w' = snd s2" using assms a b None
      by (auto simp: create_files_def and_then_def split: prod.splits)
    then show ?thesis using fs gs by auto
  next
    case (Some e)
    then have "w' = snd s1" using assms a
      by (auto simp: create_files_def and_then_def split: prod.splits)
    then show ?thesis using fs by (intro exI[of _ fs] exI[of _ "[]"]) simp
  qed
qed

lemma update_files_calls:
  assumes "update_files ev files sp dp lf w = (r, w')"
  shows "\<exists>cs. calls w' = calls w @ cs \<and> list_all (\<lambda>c. \<exists>f\<in>set files. update_call sp dp f c) cs"
proof -
  have step: "\<And>x s r s'. update_file ev sp dp lf x s = (r, s')
      \<Longrightarrow> \<exists>cs. calls s' = calls s @ cs \<and> list_all (update_call sp dp x) cs"
    by (rule update_file_calls)
  have "for_each (update_file ev sp dp lf) files w = (r, w')"
    using assms by (simp add: update_files_def)
  from for_each_trace_all[where cl = calls and Q = "update_call sp dp", OF step this]
  show ?thesis .
qed

lemma all_exist_True:
  "all_exist ps w = (True, w') \<Longrightarrow> w' = w\<lparr>calls := calls w @ map Exists ps\<rparr>"
proof (induction ps arbitrary: w)
  case Nil
  then show ?case by simp
next
  case (Cons p ps)
  have "all_exist ps (called (Exists p) w) = (True, w')"
    using Cons.prems by (auto simp: os_path_exists_def split: bool.splits)
  from Cons.IH[OF this] show ?case by (simp add: called_def)
qed

lemma all_exist_False:
  "all_exist ps w = (False, w') \<Longrightarrow>
     \<exists>n < length ps. w' = w\<lparr>calls := calls w @ map Exists (take (Suc n) ps)\<rparr>
       \<and> \<not> (trees w (ps ! n) \<noteq> None \<or> dirs w (ps ! n) \<or> text_files w (ps ! n) \<noteq> None)"
proof (induction ps arbitrary: w)
  case Nil
  then show ?case by simp
next
  case (Cons p ps)
  show ?case
  proof (cases "trees w p \<noteq> None \<or> dirs w p \<or> text_files w p \<noteq> None")
    case True
    then have "all_exist ps (called (Exists p) w) = (False, w')"
      using Cons.prems by (simp add: os_path_exists_def)
    from Cons.IH[OF this] obtain n where n: "n < length ps"
      "w' = (called (Exists p) w)\<lparr>calls := calls (called (Exists p) w) @ map Exists (take (Suc n) ps)\<rparr>"
      "\<not> (trees w (ps ! n) \<noteq> None \<or> dirs w (ps ! n) \<or> text_files w (ps ! n) \<noteq> None)"
      by auto
    then show ?thesis by (intro exI[of _ "Suc n"]) (simp add: called_def)
  next
    case False
    then have "w' = called (Exists p) w" using Cons.prems by (auto simp: os_path_exists_def)
    then show ?thesis using False by (intro exI[of _ 0]) (simp add: called_def)
  qed
qed

lemma snapshot_trees:
  "trees w1 = trees w \<Longrightarrow> fst (get_all_files_and_folders p w1) = fst (get_all_files_and_folders p w)"
  by (simp add: get_all_files_and_folders_def split: option.splits)

lemma snapshot_world: "snd (get_all_files_and_folders p w) = called (Walk p) w"
  by (simp add: get_all_files_and_folders_def split: option.splits)

lemma sync_folders_unfold:
  assumes "all_exist [dirname lf, lf, sp, rp] w = (True, w0)"
  shows "sync_folders ev sp rp lf w =
    (case apply_diff ev (cycle_diff sp rp w) sp rp (Some lf) (called (Walk rp) (called (Walk sp) w0)) of
       (Some e, w3) \<Rightarrow> (Inl e, w3) | (None, w3) \<Rightarrow> (Inr True, w3))"
proof -
  have w0: "w0 = w\<lparr>calls := calls w @ map Exists [dirname lf, lf, sp, rp]\<rparr>"
    using assms by (rule all_exist_True)
  have t0: "trees w0 = trees w" by (simp add: w0)
  obtain a w1 where g1: "get_all_files_and_folders sp w0 = (a, w1)" by fastforce
  have w1: "w1 = called (Walk sp) w0" using snapshot_world[of sp w0] g1 by simp
  have a: "a = fst (get_all_files_and_folders sp w)" using snapshot_trees[OF t0, of sp] g1 by simp
  obtain b w2 where g2: "get_all_files_and_folders rp w1 = (b, w2)" by fastforce
  have w2: "w2 = called (Walk rp) w1" using snapshot_world[of rp w1] g2 by simp
  have "trees w1 = trees w" using w1 t0 by simp
  from snapshot_trees[OF this, of rp] have b: "b = fst (get_all_files_and_folders rp w)" using g2 by simp
  show ?thesis
    using assms g1 g2 by (simp add: sync_folders_def cycle_diff_def a b w1 w2)
qed

lemma apply_diff_calls:
  assumes "apply_diff ev d sp rp lf w = (r, w')"
  shows "\<exists>fs gs hs ks us.
     calls w' = calls w
        @ map (\<lambda>f. Rmtree (join rp f)) fs @ map (\<lambda>f. Remove (join rp f)) gs
        @ map (\<lambda>f. Copytree (join sp f) (join rp f)) hs @ map (\<lambda>f. Copy2 (join sp f) (join rp f)) ks
        @ us
     \<and> subseq fs (sort_key depth (deleted_folders d)) \<and> subseq gs (deleted_files d)
     \<and> subseq hs (sort_key depth (created_folders d)) \<and> subseq ks (created_files d)
     \<and> list_all (\<lambda>c. \<exists>f\<in>set (common_files d). update_call sp rp f c) us"
proof -
  obtain r1 w1 where a: "delete_files ev (deleted_folders d) (deleted_files d) rp lf w = (r1, w1)"
    by fastforce
  from delete_files_calls[OF a] obtain fs gs where del:
    "subseq fs (sort_key depth (deleted_folders d))" "subseq gs (deleted_files d)"
    "calls w1 = calls w @ map (\<lambda>f. Rmtree (join rp f)) fs @ map (\<lambda>f. Remove (join rp f)) gs"
    by blast
  show ?thesis
  proof (cases r1)
    case (Some e)
    then have "w' = w1" using assms a by (simp add: apply_diff_def and_then_def)
    then show ?thesis using del
      by (intro exI[of _ fs] exI[of _ gs] exI[of _ "[]"]) simp
  next
    case None
    obtain r2 w2 where b: "create_files ev (created_folders d) (created_files d) sp rp lf w1 = (r2, w2)"
      by fastforce
    from create_files_calls[OF b] obtain hs ks where cre:
      "subseq hs (sort_key depth (created_folders d))" "subseq ks (created_files d)"
      "calls w2 = calls w1 @ map (\<lambda>f. Copytree (join sp f) (join rp f)) hs
         @ map (\<lambda>f. Copy2 (join sp f) (join rp f)) ks"
      by blast
    show ?thesis
    proof (cases r2)
      case (Some e)
      then have "w' = w2" using assms a b None by (simp add: apply_diff_def and_then_def)
      then show ?thesis using del cre
        by (intro exI[of _ fs] exI[of _ gs] exI[of _ hs] exI[of _ ks] exI[of _ "[]"]) simp
    next
      case n2: None
      have c: "update_files ev (common_files d) sp rp lf w2 = (r, w')"
        using assms a b None n2 by (simp add: apply_diff_def and_then_def)
      from update_files_calls[OF c] obtain us where us: "calls w' = calls w2 @ us"
        "list_all (\<lambda>c. \<exists>f\<in>set (common_files d). update_call sp rp f c) us" by blast
      show ?thesis using del cre us
        by (intro exI[of _ fs] exI[of _ gs] exI[of _ hs] exI[of _ ks] exI[of _ us]) simp
    qed
  qed
qed

text \<open>
  Claim C9. A cycle that passes the existence checks makes its file-system calls in
  this order: the four existence checks, the walk of the source, the walk of the
  replica, then the deletion applier (\<open>rmtree\<close> calls, then \<open>remove\<close> calls), then
  the creation applier (\<open>copytree\<close> calls, then \<open>copy2\<close> calls on files to create),
  then the update applier (timestamp reads and \<open>copy2\<close> calls on common files). The
  folders passed to \<open>rmtree\<close> follow the order of the folders to delete sorted by
  their number of separators, so their depths never decrease; the same holds for the
  folders passed to \<open>copytree\<close>.
\<close>

theorem sync_folders_call_order:
  assumes "sync_folders ev source_path replica_path lf w = (res, w')" and "res \<noteq> Inr False"
  shows "\<exists>fs gs hs ks us.
     new_calls w w' =
        [Exists (dirname lf), Exists lf, Exists source_path, Exists replica_path,
         Walk source_path, Walk replica_path]
        @ map (\<lambda>f. Rmtree (join replica_path f)) fs
        @ map (\<lambda>f. Remove (join replica_path f)) gs
        @ map (\<lambda>f. Copytree (join source_path f) (join replica_path f)) hs
        @ map (\<lambda>f. Copy2 (join source_path f) (join replica_path f)) ks
        @ us
     \<and> subseq fs (sort_key depth (deleted_folders (cycle_diff source_path replica_path w)))
     \<and> sorted (map depth fs)
     \<and> subseq gs (deleted_files (cycle_diff source_path replica_path w))
     \<and> subseq hs (sort_key depth (created_folders (cycle_diff source_path replica_path w)))
     \<and> sorted (map depth hs)
     \<and> subseq ks (created_files (cycle_diff source_path replica_path w))
     \<and> list_all (\<lambda>c. \<exists>f\<in>set (common_files (cycle_diff source_path replica_path w)).
           update_call source_path replica_path f c) us"
proof -
  let ?sp = source_path and ?rp = replica_path
  let ?d = "cycle_diff ?sp ?rp w"
  obtain b w0 where ae: "all_exist [dirname lf, lf, ?sp, ?rp] w = (b, w0)" by fastforce
  have b: "b" using assms ae by (cases b) (auto simp: sync_folders_def)
  have ae: "all_exist [dirname lf, lf, ?sp, ?rp] w = (True, w0)" using ae b by simp
  have w0: "w0 = w\<lparr>calls := calls w @ map Exists [dirname lf, lf, ?sp, ?rp]\<rparr>"
    using ae by (rule all_exist_True)
  let ?w2 = "called (Walk ?rp) (called (Walk ?sp) w0)"
  obtain r3 w3 where ad: "apply_diff ev ?d ?sp ?rp (Some lf) ?w2 = (r3, w3)" by fastforce
  have "w' = w3" using assms(1) sync_folders_unfold[OF ae, of ev] ad
    by (cases r3) auto
  from apply_diff_calls[OF ad] obtain fs gs hs ks us where t:
    "calls w3 = calls ?w2
        @ map (\<lambda>f. Rmtree (join ?rp f)) fs @ map (\<lambda>f. Remove (join ?rp f)) gs
        @ map (\<lambda>f. Copytree (join ?sp f) (join ?rp f)) hs @ map (\<lambda>f. Copy2 (join ?sp f) (join ?rp f)) ks
        @ us"
    "subseq fs (sort_key depth (deleted_folders ?d))" "subseq gs (deleted_files ?d)"
    "subseq hs (sort_key depth (created_folders ?d))" "subseq ks (created_files ?d)"
    "list_all (\<lambda>c. \<exists>f\<in>set (common_files ?d). update_call ?sp ?rp f c) us"
    by blast
  have s1: "sorted (map depth fs)" using t(2) sorted_sort_key by (rule sorted_subseq)
  have s2: "sorted (map depth hs)" using t(4) sorted_sort_key by (rule sorted_subseq)
  have nc: "new_calls w w' =
        [Exists (dirname lf), Exists lf, Exists ?sp, Exists ?rp, Walk ?sp, Walk ?rp]
        @ map (\<lambda>f. Rmtree (join ?rp f)) fs @ map (\<lambda>f. Remove (join ?rp f)) gs
        @ map (\<lambda>f. Copytree (join ?sp f) (join ?rp f)) hs @ map (\<lambda>f. Copy2 (join ?sp f) (join ?rp f)) ks
        @ us"
    using t(1) \<open>w' = w3\<close> by (simp add: new_calls_def w0)
  show ?thesis
    using nc t(2,3,4,5,6) s1 s2
    by (intro exI[of _ fs] exI[of _ gs] exI[of _ hs] exI[of _ ks] exI[of _ us]) simp
qed

theorem sync_folders_call_order_witness:
  "new_calls order_example (snd (sync_folders no_refusal ''src'' ''rep'' ''log/l.txt'' order_example))
     = [Exists ''log'', Exists ''log/l.txt'', Exists ''src'', Exists ''rep'', Walk ''src'', Walk ''rep'',
        Rmtree ''rep/o'', Remove ''rep/z'', Copytree ''src/a'' ''rep/a'', Copy2 ''src/n'' ''rep/n'',
        Getmtime ''src/c'', Getmtime ''rep/c'', Copy2 ''src/c'' ''rep/c'']
   \<and> (\<exists>fs gs hs ks us.
     new_calls order_example (snd (sync_folders no_refusal ''src'' ''rep'' ''log/l.txt'' order_example)) =
        [Exists (dirname ''log/l.txt''), Exists ''log/l.txt'', Exists ''src'', Exists ''rep'',
         Walk ''src'', Walk ''rep'']
        @ map (\<lambda>f. Rmtree (join ''rep'' f)) fs
        @ map (\<lambda>f. Remove (join ''rep'' f)) gs
        @ map (\<lambda>f. Copytree (join ''src'' f) (join ''rep'' f)) hs
        @ map (\<lambda>f. Copy2 (join ''src'' f) (join ''rep'' f)) ks
        @ us
     \<and> sorted (map depth fs) \<and> sorted (map depth hs))"
proof -
  let ?r = "sync_folders no_refusal ''src'' ''rep'' ''log/l.txt'' order_example"
  have run: "?r = (fst ?r, snd ?r)" by simp
  have ev: "fst ?r = Inr True"
    by (simp add: order_example_def example_defs model_defs)
  then have ok: "fst ?r \<noteq> Inr False" by simp
  have tr: "new_calls order_example (snd ?r)
     = [Exists ''log'', Exists ''log/l.txt'', Exists ''src'', Exists ''rep'', Walk ''src'', Walk ''rep'',
        Rmtree ''rep/o'', Remove ''rep/z'', Copytree ''src/a'' ''rep/a'', Copy2 ''src/n'' ''rep/n'',
        Getmtime ''src/c'', Getmtime ''rep/c'', Copy2 ''src/c'' ''rep/c'']"
    by (simp add: new_calls_def order_example_def example_defs model_defs)
  from sync_folders_call_order[OF run ok] tr show ?thesis by blast
qed

section \<open>The deletion applier when nothing is refused\<close>

lemma map_of_filter_key:
  "map_of (filter (\<lambda>(q, n). P q) t) k = (if P k then map_of t k else None)"
  by (induction t) auto

lemma set_set_union [simp]: "set (set_union xs ys) = set xs \<union> set ys"
  by (simp add: set_union_def)

lemma distinct_set_union [simp]: "distinct (set_union xs ys)"
  by (simp add: set_union_def)

lemma substring_safeD:
  "substring_safe folders items \<Longrightarrow> F \<in> set folders \<Longrightarrow> i \<in> set items \<Longrightarrow> sublist F i
     \<Longrightarrow> i = F \<or> inside F i"
  by (auto simp: substring_safe_def list_all_iff)

lemma delete_folder_step:
  assumes pre: "deletable ev path t0 folders files"
    and inv: "del_inv path lf t0 (set folders \<union> set files) w0 P del ys w"
    and F: "F \<in> set folders" "F \<notin> P"
    and srt: "\<forall>G\<in>P. depth G \<le> depth F"
    and w0: "trees w0 path = Some t0"
  shows "\<exists>del' ys' w'.
     delete_folder ev (set_union folders files) path (Some lf) F (del, w) = (None, del', w')
     \<and> del_inv path lf t0 (set folders \<union> set files) w0 (insert F P) del' ys' w'"
proof -
  let ?D = "set folders \<union> set files"
  let ?items = "set_union folders files"
  have tw: "trees w = (trees w0)(path \<mapsto> filter (\<lambda>(q, n). q \<notin> del) t0)"
    and dw: "dirs w = dirs w0" and lw: "log_writable lf w"
    and lg: "logged lf w = logged lf w0 @ map (\<lambda>i. (DELETED, join path i)) ys"
    and dy: "distinct ys" and sy: "set ys = del" and dD: "del \<subseteq> ?D"
    and i5: "\<forall>i\<in>del. \<exists>G\<in>P. G = i \<or> inside G i"
    and i6: "\<forall>G\<in>P. \<forall>i\<in>?D. (G = i \<or> inside G i) \<longrightarrow> i \<in> del"
    using inv by (auto simp: del_inv_def)
  have FD: "F \<in> ?D" using F(1) by simp
  have safe: "i = F \<or> inside F i" if "i \<in> ?D" "sublist F i" for i
    using pre F(1) that substring_safeD[of folders ?items F i] by (auto simp: deletable_def)
  have cover: "q \<in> ?D" if "inside F q" "map_of t0 q \<noteq> None" for q
    using pre F(1) that unfolding deletable_def by blast
  show ?thesis
  proof (cases "F \<in> del")
    case True
    have run: "delete_folder ev ?items path (Some lf) F (del, w) = (None, del, w)"
      using True by (simp add: delete_folder_def)
    have i6': "\<forall>G\<in>insert F P. \<forall>i\<in>?D. (G = i \<or> inside G i) \<longrightarrow> i \<in> del"
    proof (intro ballI impI)
      fix G i assume G: "G \<in> insert F P" and i: "i \<in> ?D" and r: "G = i \<or> inside G i"
      show "i \<in> del"
      proof (cases "G = F")
        case False
        then show ?thesis using G i r i6 by blast
      next
        case GF: True
        from i5 True obtain G' where G': "G' \<in> P" "G' = F \<or> inside G' F" by blast
        then have "inside G' F" using F(2) by auto
        then have "G' = i \<or> inside G' i" using r GF by (auto intro: inside_trans)
        then show ?thesis using i6 G'(1) i by blast
      qed
    qed
    have "del_inv path lf t0 ?D w0 (insert F P) del ys w"
      unfolding del_inv_def using tw dw lw lg dy sy dD i5 i6' by blast
    then show ?thesis using run by blast
  next
    case False
    let ?t = "filter (\<lambda>(q, n). q \<notin> del) t0"
    let ?M = "{i \<in> set ?items. sublist F i}"
    let ?w1 = "set_tree path (remove_subtree F ?t) (called (Rmtree (join path F)) w)"
    let ?ms = "map (\<lambda>i. (DELETED, join path i)) (filter (sublist F) ?items)"
    let ?w2 = "write_lines ?ms lf ?w1"
    have tF: "map_of ?t F = Some Folder"
      using pre F(1) False by (simp add: map_of_filter_key deletable_def)
    have nr: "\<not> refuses ev (Rmtree (join path F))" using pre F(1) by (simp add: deletable_def)
    have rm: "shutil_rmtree ev path F w = (None, ?w1)"
      using tw tF nr by (simp add: shutil_rmtree_def Let_def)
    have tp: "trees w path \<noteq> None" using tw by simp
    have lw1: "log_writable lf ?w1" using lw tp by simp
    have run: "delete_folder ev ?items path (Some lf) F (del, w) = (None, del \<union> ?M, ?w2)"
      using False rm delete_marking_eq[OF lw1] by (simp add: delete_folder_def except_OSError_def)
    have Msafe: "?M = {i \<in> ?D. i = F \<or> inside F i}"
      using safe by (auto intro: inside_sublist)
    have disj: "?M \<inter> del = {}"
    proof (rule ccontr)
      assume "?M \<inter> del \<noteq> {}"
      then obtain i where i: "i \<in> ?D" "i = F \<or> inside F i" "i \<in> del" using Msafe by auto
      then have iF: "inside F i" using False by auto
      from i5 i(3) obtain G where G: "G \<in> P" "G = i \<or> inside G i" by blast
      have dG: "depth G \<le> depth F" using srt G(1) by simp
      show False
      proof (cases "G = i")
        case True
        then have "depth F < depth G" using iF depth_inside by simp
        then show False using dG by simp
      next
        case False
        then have Gi: "inside G i" using G(2) by simp
        have "G = F \<or> inside G F \<or> inside F G" using inside_chain[OF Gi iF] by auto
        then show False
        proof (elim disjE)
          assume "G = F" then show False using G(1) F(2) by simp
        next
          assume "inside G F"
          then have "F \<in> del" using i6 G(1) FD by blast
          then show False using \<open>F \<notin> del\<close> by simp
        next
          assume "inside F G"
          then have "depth F < depth G" by (rule depth_inside)
          then show False using dG by simp
        qed
      qed
    qed
    have tree: "remove_subtree F ?t = filter (\<lambda>(q, n). q \<notin> del \<union> ?M) t0"
    proof -
      have "remove_subtree F ?t = filter (\<lambda>x. (case x of (q, n) \<Rightarrow> q \<notin> del) \<and> (case x of (q, n) \<Rightarrow> q \<noteq> F \<and> \<not> inside F q)) t0"
        by (simp add: remove_subtree_def)
      also have "\<dots> = filter (\<lambda>(q, n). q \<notin> del \<union> ?M) t0"
      proof (rule filter_cong[OF refl])
        fix x assume x: "x \<in> set t0"
        obtain q n where xq: "x = (q, n)" by (cases x)
        have dist_or: "map_of t0 q \<noteq> None"
          using x xq by (metis map_of_eq_None_iff fst_conv image_eqI)
        have "q \<in> ?M \<longleftrightarrow> (q = F \<or> inside F q)"
          using Msafe FD cover dist_or by auto
        then show "((case x of (q, n) \<Rightarrow> q \<notin> del) \<and> (case x of (q, n) \<Rightarrow> q \<noteq> F \<and> \<not> inside F q))
            = (case x of (q, n) \<Rightarrow> q \<notin> del \<union> ?M)"
          using xq by auto
      qed
      finally show ?thesis .
    qed
    have tw2: "trees ?w2 = (trees w0)(path \<mapsto> filter (\<lambda>(q, n). q \<notin> del \<union> ?M) t0)"
      using tw tree by simp
    have lg2: "logged lf ?w2 = logged lf w0 @ map (\<lambda>i. (DELETED, join path i)) (ys @ filter (sublist F) ?items)"
      using lg by simp
    have dy2: "distinct (ys @ filter (sublist F) ?items)"
      using dy sy disj by auto
    have sy2: "set (ys @ filter (sublist F) ?items) = del \<union> ?M" using sy by auto
    have dD2: "del \<union> ?M \<subseteq> ?D" using dD by auto
    have i5': "\<forall>i\<in>del \<union> ?M. \<exists>G\<in>insert F P. G = i \<or> inside G i"
      using i5 Msafe by auto
    have i6': "\<forall>G\<in>insert F P. \<forall>i\<in>?D. (G = i \<or> inside G i) \<longrightarrow> i \<in> del \<union> ?M"
      using i6 Msafe by auto
    have "del_inv path lf t0 ?D w0 (insert F P) (del \<union> ?M) (ys @ filter (sublist F) ?items) ?w2"
      unfolding del_inv_def
      using tw2 dw lw1 lg2 dy2 sy2 dD2 i5' i6' by (simp del: set_append map_append)
    then show ?thesis using run by blast
  qed
qed

lemma delete_folder_loop:
  assumes pre: "deletable ev path t0 folders files"
    and w0: "trees w0 path = Some t0"
  shows "sorted (map depth (ps @ xs)) \<Longrightarrow> distinct (ps @ xs) \<Longrightarrow> set (ps @ xs) \<subseteq> set folders
    \<Longrightarrow> del_inv path lf t0 (set folders \<union> set files) w0 (set ps) del ys w
    \<Longrightarrow> \<exists>del' ys' w'.
         for_each (delete_folder ev (set_union folders files) path (Some lf)) xs (del, w)
           = (None, del', w')
         \<and> del_inv path lf t0 (set folders \<union> set files) w0 (set (ps @ xs)) del' ys' w'"
proof (induction xs arbitrary: ps del ys w)
  case Nil
  then show ?case by auto
next
  case (Cons F xs)
  have F: "F \<in> set folders" "F \<notin> set ps" using Cons.prems(2,3) by auto
  have srt: "\<forall>G\<in>set ps. depth G \<le> depth F"
    using Cons.prems(1) by (auto simp: sorted_append)
  from delete_folder_step[OF pre Cons.prems(4) F srt w0]
  obtain del1 ys1 w1 where s1:
    "delete_folder ev (set_union folders files) path (Some lf) F (del, w) = (None, del1, w1)"
    "del_inv path lf t0 (set folders \<union> set files) w0 (insert F (set ps)) del1 ys1 w1"
    by blast
  have p1: "sorted (map depth ((ps @ [F]) @ xs))" "distinct ((ps @ [F]) @ xs)"
    "set ((ps @ [F]) @ xs) \<subseteq> set folders"
    using Cons.prems(1,2,3) by simp_all
  have i1: "del_inv path lf t0 (set folders \<union> set files) w0 (set (ps @ [F])) del1 ys1 w1"
    using s1(2) by simp
  from Cons.IH[OF p1 i1] obtain del' ys' w' where s2:
    "for_each (delete_folder ev (set_union folders files) path (Some lf)) xs (del1, w1)
       = (None, del', w')"
    "del_inv path lf t0 (set folders \<union> set files) w0 (set ((ps @ [F]) @ xs)) del' ys' w'"
    by blast
  show ?case using s1(1) s2 by (auto simp: and_then_def)
qed

lemma delete_file_step:
  assumes pre: "deletable ev path t0 folders files"
    and inv: "file_inv path lf t0 w0 del ys ps w"
    and f: "f \<in> set files" "f \<notin> set ps"
  shows "\<exists>w'. delete_file ev path (Some lf) f (del, w) = (None, del, w')
     \<and> file_inv path lf t0 w0 del ys (ps @ [f]) w'"
proof -
  have tw: "trees w = (trees w0)(path \<mapsto> filter (\<lambda>(q, n). q \<notin> del \<union> set ps) t0)"
    and dw: "dirs w = dirs w0" and lw: "log_writable lf w"
    and lg: "logged lf w = logged lf w0
          @ map (\<lambda>i. (DELETED, join path i)) (ys @ filter (\<lambda>f. f \<notin> del) ps)"
    using inv by (auto simp: file_inv_def)
  show ?thesis
  proof (cases "f \<in> del")
    case True
    have run: "delete_file ev path (Some lf) f (del, w) = (None, del, w)"
      using True by (simp add: delete_file_def)
    have "del \<union> set (ps @ [f]) = del \<union> set ps" using True by auto
    then have "file_inv path lf t0 w0 del ys (ps @ [f]) w"
      unfolding file_inv_def using tw dw lw lg True by simp
    then show ?thesis using run by blast
  next
    case False
    let ?t = "filter (\<lambda>(q, n). q \<notin> del \<union> set ps) t0"
    let ?w1 = "set_tree path (AList.delete f ?t) (called (Remove (join path f)) w)"
    let ?w2 = "write_line (DELETED, join path f) lf ?w1"
    obtain m c where tf: "map_of t0 f = Some (File m c)"
      using pre f(1) by (auto simp: deletable_def is_file_iff)
    have tF: "map_of ?t f = Some (File m c)"
      using tf False f(2) by (simp add: map_of_filter_key)
    have nr: "\<not> refuses ev (Remove (join path f))" using pre f(1) by (simp add: deletable_def)
    have rm: "os_remove ev path f w = (None, ?w1)"
      using tw tF nr by (simp add: os_remove_def Let_def)
    have tp: "trees w path \<noteq> None" using tw by simp
    have lw1: "log_writable lf ?w1" using lw tp by simp
    have run: "delete_file ev path (Some lf) f (del, w) = (None, del, ?w2)"
      using False rm log_message_writable[OF lw1]
      by (simp add: delete_file_def except_OSError_def and_then_def)
    have tree: "AList.delete f ?t = filter (\<lambda>(q, n). q \<notin> del \<union> set (ps @ [f])) t0"
      by (auto simp: AList.delete_eq intro!: filter_cong)
    have lw2: "log_writable lf ?w2" using lw1 by (rule log_writable_write_line)
    have "file_inv path lf t0 w0 del ys (ps @ [f]) ?w2"
      unfolding file_inv_def using tw tree dw lw2 lg False by simp
    then show ?thesis using run by blast
  qed
qed

lemma delete_file_loop:
  assumes pre: "deletable ev path t0 folders files"
  shows "distinct (ps @ xs) \<Longrightarrow> set (ps @ xs) \<subseteq> set files
    \<Longrightarrow> file_inv path lf t0 w0 del ys ps w
    \<Longrightarrow> \<exists>w'. for_each (delete_file ev path (Some lf)) xs (del, w) = (None, del, w')
         \<and> file_inv path lf t0 w0 del ys (ps @ xs) w'"
proof (induction xs arbitrary: ps w)
  case Nil
  then show ?case by auto
next
  case (Cons f xs)
  have f: "f \<in> set files" "f \<notin> set ps" using Cons.prems(1,2) by auto
  from delete_file_step[OF pre Cons.prems(3) f]
  obtain w1 where s1: "delete_file ev path (Some lf) f (del, w) = (None, del, w1)"
    "file_inv path lf t0 w0 del ys (ps @ [f]) w1" by blast
  have p1: "distinct ((ps @ [f]) @ xs)" "set ((ps @ [f]) @ xs) \<subseteq> set files"
    using Cons.prems(1,2) by simp_all
  from Cons.IH[OF p1 s1(2)] obtain w' where s2:
    "for_each (delete_file ev path (Some lf)) xs (del, w1) = (None, del, w')"
    "file_inv path lf t0 w0 del ys ((ps @ [f]) @ xs) w'" by blast
  show ?case using s1(1) s2 by (auto simp: and_then_def)
qed

lemma delete_files_exact:
  assumes pre: "deletable ev path t0 folders files"
    and w0: "trees w path = Some t0" and lw: "log_writable lf w"
  shows "\<exists>w' ys. delete_files ev folders files path (Some lf) w = (None, w')
     \<and> trees w' = (trees w)(path \<mapsto> filter (\<lambda>(q, n). q \<notin> set folders \<union> set files) t0)
     \<and> dirs w' = dirs w \<and> log_writable lf w'
     \<and> logged lf w' = logged lf w @ map (\<lambda>i. (DELETED, join path i)) ys
     \<and> distinct ys \<and> set ys = set folders \<union> set files"
proof -
  let ?D = "set folders \<union> set files"
  let ?S = "sort_key depth folders"
  have i0: "del_inv path lf t0 ?D w (set []) {} [] w"
    unfolding del_inv_def using w0 lw by (simp add: map_upd_triv)
  have s: "sorted (map depth ([] @ ?S))" "distinct ([] @ ?S)" "set ([] @ ?S) \<subseteq> set folders"
    using pre by (simp_all add: deletable_def)
  from delete_folder_loop[OF pre w0 s i0]
  obtain del ys w1 where a:
    "for_each (delete_folder ev (set_union folders files) path (Some lf)) ?S ({}, w) = (None, del, w1)"
    "del_inv path lf t0 ?D w (set ([] @ ?S)) del ys w1" by blast
  have tw: "trees w1 = (trees w)(path \<mapsto> filter (\<lambda>(q, n). q \<notin> del) t0)"
    and dw: "dirs w1 = dirs w" and lw1: "log_writable lf w1"
    and lg: "logged lf w1 = logged lf w @ map (\<lambda>i. (DELETED, join path i)) ys"
    and dy: "distinct ys" and sy: "set ys = del" and dD: "del \<subseteq> ?D"
    and i6: "\<forall>G\<in>set ([] @ ?S). \<forall>i\<in>?D. (G = i \<or> inside G i) \<longrightarrow> i \<in> del"
    using a(2) by (auto simp: del_inv_def)
  have fd: "set folders \<subseteq> del" using i6 by auto
  have f0: "file_inv path lf t0 w del ys [] w1"
    unfolding file_inv_def using tw dw lw1 lg by simp
  have df: "distinct ([] @ files)" "set ([] @ files) \<subseteq> set files"
    using pre by (simp_all add: deletable_def)
  from delete_file_loop[OF pre df f0] obtain w' where b:
    "for_each (delete_file ev path (Some lf)) files (del, w1) = (None, del, w')"
    "file_inv path lf t0 w del ys ([] @ files) w'" by blast
  have run: "delete_files ev folders files path (Some lf) w = (None, w')"
    using a(1) b(1) by (simp add: delete_files_def and_then_def)
  have un: "del \<union> set files = ?D" using fd dD by auto
  let ?zs = "ys @ filter (\<lambda>f. f \<notin> del) files"
  have t': "trees w' = (trees w)(path \<mapsto> filter (\<lambda>(q, n). q \<notin> ?D) t0)"
    using b(2) un by (simp add: file_inv_def)
  have r': "dirs w' = dirs w" "log_writable lf w'"
    "logged lf w' = logged lf w @ map (\<lambda>i. (DELETED, join path i)) ?zs"
    using b(2) by (simp_all add: file_inv_def)
  have dz: "distinct ?zs" using dy sy pre by (auto simp: deletable_def)
  have sz: "set ?zs = ?D" using sy un by auto
  show ?thesis using run t' r' dz sz by blast
qed

section \<open>What creation and update can touch\<close>

lemma for_each_inv:
  assumes step: "\<And>x s r s'. I s \<Longrightarrow> body x s = (r, s') \<Longrightarrow> I s'"
  shows "I s \<Longrightarrow> for_each body xs s = (r, s') \<Longrightarrow> I s'"
proof (induction xs arbitrary: s)
  case Nil
  then show ?case by simp
next
  case (Cons x xs)
  obtain r1 s1 where b: "body x s = (r1, s1)" by (cases "body x s")
  have i1: "I s1" using step[OF Cons.prems(1) b] .
  show ?case
  proof (cases r1)
    case None
    then have "for_each body xs s1 = (r, s')" using Cons.prems(2) b by (simp add: and_then_def)
    then show ?thesis using Cons.IH[OF i1] by simp
  next
    case (Some e)
    then have "s' = s1" using Cons.prems(2) b by (simp add: and_then_def)
    then show ?thesis using i1 by simp
  qed
qed

lemma log_message_effect:
  assumes "log_message t ty fp w = (r, w')"
  shows "trees w' = trees w \<and> dirs w' = dirs w
    \<and> (logged lf w' = logged lf w \<or> logged lf w' = logged lf w @ [(ty, t)])"
  using assms
  by (auto simp: log_message_def Let_def logged_def split: option.splits if_splits)

lemma frame_log_message:
  assumes "ty \<noteq> DELETED" "frame_inv sp rp lf s t1 L0 w" "log_message t ty fp w = (r, w')"
  shows "frame_inv sp rp lf s t1 L0 w'"
proof -
  from log_message_effect[OF assms(3), of lf]
  have t: "trees w' = trees w"
    and l: "logged lf w' = logged lf w \<or> logged lf w' = logged lf w @ [(ty, t)]" by auto
  have "filter (\<lambda>l. fst l = DELETED) (logged lf w') = filter (\<lambda>l. fst l = DELETED) (logged lf w)"
    using l assms(1) by auto
  then show ?thesis using assms(2) t by (simp add: frame_inv_def)
qed

lemma frame_create_marking:
  "frame_inv sp rp lf s t1 L0 w \<Longrightarrow> create_marking F dp fp items (m, w) = (r, m', w')
    \<Longrightarrow> frame_inv sp rp lf s t1 L0 w'"
proof (induction items arbitrary: m w)
  case Nil
  then show ?case by simp
next
  case (Cons i items)
  show ?case
  proof (cases "sublist F i")
    case False
    then show ?thesis using Cons by simp
  next
    case True
    obtain r1 w1 where l: "log_message (join dp i) CREATED fp w = (r1, w1)" by fastforce
    have f1: "frame_inv sp rp lf s t1 L0 w1"
      using frame_log_message[OF _ Cons.prems(1) l] by simp
    show ?thesis
    proof (cases r1)
      case None
      then have "create_marking F dp fp items (insert i m, w1) = (r, m', w')"
        using Cons.prems(2) True l by simp
      then show ?thesis using Cons.IH[OF f1] by simp
    next
      case (Some e)
      then have "w' = w1" using Cons.prems(2) True l by simp
      then show ?thesis using f1 by simp
    qed
  qed
qed

lemma frame_called [simp]: "frame_inv sp rp lf s t1 L0 (called c w) = frame_inv sp rp lf s t1 L0 w"
  by (simp add: frame_inv_def)

lemma write_entries_cases:
  "map_of (write_entries new t) q = map_of t q
    \<or> (\<exists>v. (q, v) \<in> set new \<and> map_of (write_entries new t) q = Some v)"
proof (induction new arbitrary: t)
  case Nil
  then show ?case by (simp add: write_entries_def)
next
  case (Cons a new)
  obtain k v where a: "a = (k, v)" by (cases a)
  have w: "write_entries (a # new) t = write_entries new (AList.update k v t)"
    by (simp add: write_entries_def a)
  from Cons.IH[of "AList.update k v t"] show ?case
  proof
    assume e: "map_of (write_entries new (AList.update k v t)) q = map_of (AList.update k v t) q"
    show ?thesis
    proof (cases "q = k")
      case True
      then have "map_of (write_entries (a # new) t) q = Some v" using e w by (simp add: update_conv')
      then show ?thesis using a True by auto
    next
      case False
      then show ?thesis using e w by (simp add: update_conv')
    qed
  next
    assume "\<exists>v'. (q, v') \<in> set new \<and> map_of (write_entries new (AList.update k v t)) q = Some v'"
    then show ?thesis using w by auto
  qed
qed

lemma copied_entries_source:
  assumes "wf_tree s" "map_of s F = Some Folder" "(q, v) \<in> set (copied_entries s d F)"
  shows "map_of s q = Some v"
proof -
  from assms(3) consider "q \<in> set (ancestors F)" "v = Folder" | "q = F" "v = Folder"
    | "(q, v) \<in> set s" "inside F q"
    by (auto simp: copied_entries_def)
  then show ?thesis
  proof cases
    case 1
    then have "inside q F" by (simp add: inside_iff_ancestor)
    then show ?thesis using wf_tree_entry(2)[OF assms(1,2)] 1(2) by simp
  next
    case 2
    then show ?thesis using assms(2) by simp
  next
    case 3
    then show ?thesis using assms(1) by (simp add: wf_tree_def)
  qed
qed

lemma frame_copytree:
  assumes wf: "wf_tree s" and ne: "sp \<noteq> rp"
    and inv: "frame_inv sp rp lf s t1 L0 w"
    and run: "shutil_copytree ev sp rp F w = (r, w')"
  shows "frame_inv sp rp lf s t1 L0 w'"
proof -
  from inv obtain t where t: "trees w sp = Some s" "trees w rp = Some t"
    "\<forall>q. map_of t q = Some Folder \<longrightarrow> map_of s q \<noteq> None \<longrightarrow> map_of s q = Some Folder"
    "\<forall>q. map_of s q = None \<longrightarrow> map_of t q = map_of t1 q"
    "filter (\<lambda>l. fst l = DELETED) (logged lf w) = L0"
    by (auto simp: frame_inv_def)
  let ?c = "Copytree (join sp F) (join rp F)"
  show ?thesis
  proof (cases "w' = called ?c w")
    case True
    then show ?thesis using inv by simp
  next
    case False
    then have sF: "map_of s F = Some Folder"
      and "w' = set_tree rp (write_entries (copied_entries s t F) t) (called ?c w)
         \<or> w' = set_tree rp (write_entries (copied_part (partly ev ?c) s t F) t) (called ?c w)"
      using run t(1,2)
      by (auto simp: shutil_copytree_def Let_def split: if_splits option.splits node.splits)
    then obtain new where w': "w' = set_tree rp (write_entries new t) (called ?c w)"
      and sub: "set new \<subseteq> set (copied_entries s t F)"
      by (auto simp: copied_part_def)
    have src: "map_of s q = Some v" if "(q, v) \<in> set new" for q v
      using copied_entries_source[OF wf sF] that sub by blast
    have a: "\<forall>q. map_of (write_entries new t) q = Some Folder \<longrightarrow> map_of s q \<noteq> None
        \<longrightarrow> map_of s q = Some Folder"
      using write_entries_cases[of new t] t(3) src by (metis option.inject)
    have b: "\<forall>q. map_of s q = None \<longrightarrow> map_of (write_entries new t) q = map_of t1 q"
      using write_entries_cases[of new t] t(4) src by (metis option.distinct(1))
    show ?thesis
      unfolding frame_inv_def w' using t(1,5) ne a b by simp
  qed
qed

lemma frame_copy2:
  assumes ne: "sp \<noteq> rp"
    and inv: "frame_inv sp rp lf s t1 L0 w"
    and run: "shutil_copy2 ev sp rp f w = (r, w')"
  shows "frame_inv sp rp lf s t1 L0 w'"
proof -
  from inv obtain t where t: "trees w sp = Some s" "trees w rp = Some t"
    "\<forall>q. map_of t q = Some Folder \<longrightarrow> map_of s q \<noteq> None \<longrightarrow> map_of s q = Some Folder"
    "\<forall>q. map_of s q = None \<longrightarrow> map_of t q = map_of t1 q"
    "filter (\<lambda>l. fst l = DELETED) (logged lf w) = L0"
    by (auto simp: frame_inv_def)
  let ?c = "Copy2 (join sp f) (join rp f)"
  show ?thesis
  proof (cases "w' = called ?c w")
    case True
    then show ?thesis using inv by simp
  next
    case False
    then obtain m c where sf: "map_of s f = Some (File m c)"
      using run t(1,2)
      by (auto simp: shutil_copy2_def Let_def split: if_splits option.splits node.splits)
    have nf: "map_of t f \<noteq> Some Folder" using t(3) sf by auto
    have w': "w' = set_tree rp (AList.update f (File m c) t) (called ?c w)"
      using False run t(1,2) sf nf
      by (auto simp: shutil_copy2_def Let_def split: if_splits option.splits node.splits)
    show ?thesis
      unfolding frame_inv_def w' using t ne sf by (auto simp: update_conv')
  qed
qed

lemma frame_getmtime:
  "frame_inv sp rp lf s t1 L0 w \<Longrightarrow> os_path_getmtime ev root f w = (r, w')
    \<Longrightarrow> frame_inv sp rp lf s t1 L0 w'"
  by (auto simp: os_path_getmtime_def Let_def split: if_splits option.splits node.splits)

lemma frame_handler:
  assumes "except_OSError (rb :: error option \<times> path set \<times> world)
      (\<lambda>(m, w'). case log_message t ERROR fp w' of (r, w'') \<Rightarrow> (r, m, w'')) = (r, st')"
    and "frame_inv sp rp lf s t1 L0 (snd (snd rb))"
  shows "frame_inv sp rp lf s t1 L0 (snd st')"
proof -
  obtain r2 m2 w2 where rb: "rb = (r2, m2, w2)" by (cases rb)
  show ?thesis
  proof (cases r2)
    case None
    then show ?thesis using assms rb by (simp add: except_OSError_def)
  next
    case (Some e)
    obtain r3 w3 where l: "log_message t ERROR fp w2 = (r3, w3)" by fastforce
    have "frame_inv sp rp lf s t1 L0 w3"
      using frame_log_message[OF _ _ l] assms(2) rb by simp
    then show ?thesis using assms(1) rb Some l by (auto simp: except_OSError_def)
  qed
qed

lemma frame_guarded:
  assumes "except_OSError (and_then rw (log_message t1 ty1 fp)) (log_message t2 ERROR fp) = (r, w')"
    and "ty1 \<noteq> DELETED"
    and "frame_inv sp rp lf s t0 L0 (snd rw)"
  shows "frame_inv sp rp lf s t0 L0 w'"
proof -
  obtain r1 w1 where o: "rw = (r1, w1)" by (cases rw)
  have f1: "frame_inv sp rp lf s t0 L0 w1" using o assms(3) by simp
  show ?thesis
  proof (cases r1)
    case None
    obtain r2 w2 where l: "log_message t1 ty1 fp w1 = (r2, w2)" by fastforce
    have f2: "frame_inv sp rp lf s t0 L0 w2" using frame_log_message[OF assms(2) f1 l] .
    show ?thesis
    proof (cases r2)
      case None
      then show ?thesis using assms(1) o \<open>r1 = None\<close> l f2
        by (simp add: except_OSError_def and_then_def)
    next
      case (Some e)
      obtain r3 w3 where l3: "log_message t2 ERROR fp w2 = (r3, w3)" by fastforce
      have "frame_inv sp rp lf s t0 L0 w3" using frame_log_message[OF _ f2 l3] by simp
      then show ?thesis using assms(1) o \<open>r1 = None\<close> l Some l3
        by (simp add: except_OSError_def and_then_def)
    qed
  next
    case (Some e)
    obtain r3 w3 where l3: "log_message t2 ERROR fp w1 = (r3, w3)" by fastforce
    have "frame_inv sp rp lf s t0 L0 w3" using frame_log_message[OF _ f1 l3] by simp
    then show ?thesis using assms(1) o Some l3
      by (simp add: except_OSError_def and_then_def)
  qed
qed

lemma frame_create_folder:
  assumes wf: "wf_tree s" and ne: "sp \<noteq> rp"
    and inv: "frame_inv sp rp lf s t1 L0 (snd st)"
    and run: "create_folder ev items sp rp fp F st = (r, st')"
  shows "frame_inv sp rp lf s t1 L0 (snd st')"
proof -
  obtain cre w where st: "st = (cre, w)" by (cases st)
  show ?thesis
  proof (cases "F \<in> cre")
    case True
    then show ?thesis using run st inv by (auto simp: create_folder_def)
  next
    case False
    define rb where "rb = (case shutil_copytree ev sp rp F w of
          (Some e, w') \<Rightarrow> (Some e, cre, w')
        | (None, w') \<Rightarrow> create_marking F rp fp items (cre, w'))"
    obtain r1 w1 where cp: "shutil_copytree ev sp rp F w = (r1, w1)" by fastforce
    have f1: "frame_inv sp rp lf s t1 L0 w1"
      using frame_copytree[OF wf ne _ cp] inv st by simp
    obtain r2 m2 w2 where rb: "rb = (r2, m2, w2)" by (cases rb)
    have f2: "frame_inv sp rp lf s t1 L0 w2"
    proof (cases r1)
      case None
      then have "create_marking F rp fp items (cre, w1) = (r2, m2, w2)"
        using rb cp by (simp add: rb_def)
      then show ?thesis using frame_create_marking[OF f1] by simp
    next
      case (Some e)
      then show ?thesis using rb cp f1 by (simp add: rb_def)
    qed
    have "except_OSError rb
        (\<lambda>(m, w'). case log_message (could_not (join rp F) ''created'') ERROR fp w' of
            (r, w'') \<Rightarrow> (r, m, w'')) = (r, st')"
      using run st False by (simp add: create_folder_def rb_def)
    from frame_handler[OF this] show ?thesis using rb f2 by simp
  qed
qed

lemma frame_create_file:
  assumes ne: "sp \<noteq> rp"
    and inv: "frame_inv sp rp lf s t1 L0 (snd st)"
    and run: "create_file ev sp rp fp f st = (r, st')"
  shows "frame_inv sp rp lf s t1 L0 (snd st')"
proof -
  obtain cre w where st: "st = (cre, w)" by (cases st)
  show ?thesis
  proof (cases "f \<in> cre")
    case True
    then show ?thesis using run st inv by (auto simp: create_file_def)
  next
    case False
    obtain r2 w2 where g: "except_OSError
        (and_then (shutil_copy2 ev sp rp f w) (log_message (join rp f) CREATED fp))
        (log_message (could_not (join rp f) ''created'') ERROR fp) = (r2, w2)" by fastforce
    have "frame_inv sp rp lf s t1 L0 w2"
    proof (rule frame_guarded[OF g])
      show "CREATED \<noteq> DELETED" by simp
      show "frame_inv sp rp lf s t1 L0 (snd (shutil_copy2 ev sp rp f w))"
        using frame_copy2[OF ne, of lf s t1 L0 w ev f] inv st
        by (cases "shutil_copy2 ev sp rp f w") simp
    qed
    then show ?thesis using run st False g by (auto simp: create_file_def)
  qed
qed

lemma frame_update_file:
  assumes ne: "sp \<noteq> rp"
    and inv: "frame_inv sp rp lf s t1 L0 w"
    and run: "update_file ev sp rp fp f w = (r, w')"
  shows "frame_inv sp rp lf s t1 L0 w'"
proof -
  obtain m1 w1 where g1: "os_path_getmtime ev sp f w = (m1, w1)" by fastforce
  have f1: "frame_inv sp rp lf s t1 L0 w1" using frame_getmtime[OF inv g1] .
  show ?thesis
  proof (cases m1)
    case (Inl e)
    then have "w' = w1" using run g1 by (simp add: update_file_def)
    then show ?thesis using f1 by simp
  next
    case (Inr ms)
    obtain m2 w2 where g2: "os_path_getmtime ev rp f w1 = (m2, w2)" by fastforce
    have f2: "frame_inv sp rp lf s t1 L0 w2" using frame_getmtime[OF f1 g2] .
    show ?thesis
    proof (cases m2)
      case (Inl e)
      then have "w' = w2" using run g1 g2 Inr by (simp add: update_file_def)
      then show ?thesis using f2 by simp
    next
      case md: (Inr md)
      show ?thesis
      proof (cases "md = ms")
        case True
        then have "w' = w2" using run g1 g2 Inr md by (simp add: update_file_def)
        then show ?thesis using f2 by simp
      next
        case False
        then have g: "except_OSError
            (and_then (shutil_copy2 ev sp rp f w2) (log_message (join rp f) UPDATED fp))
            (log_message (could_not (join rp f) ''updated'') ERROR fp) = (r, w')"
          using run g1 g2 Inr md by (simp add: update_file_def)
        show ?thesis
        proof (rule frame_guarded[OF g])
          show "UPDATED \<noteq> DELETED" by simp
          show "frame_inv sp rp lf s t1 L0 (snd (shutil_copy2 ev sp rp f w2))"
            using frame_copy2[OF ne f2, of ev f]
            by (cases "shutil_copy2 ev sp rp f w2") simp
        qed
      qed
    qed
  qed
qed

lemma frame_create_files:
  assumes wf: "wf_tree s" and ne: "sp \<noteq> rp"
    and inv: "frame_inv sp rp lf s t1 L0 w"
    and run: "create_files ev folders files sp rp fp w = (r, w')"
  shows "frame_inv sp rp lf s t1 L0 w'"
proof -
  let ?I = "\<lambda>st :: path set \<times> world. frame_inv sp rp lf s t1 L0 (snd st)"
  let ?A = "create_folder ev (set_union folders files) sp rp fp"
  let ?B = "create_file ev sp rp fp"
  obtain r1 s1 where a: "for_each ?A (sort_key depth folders) ({}, w) = (r1, s1)"
    by (cases "for_each ?A (sort_key depth folders) ({}, w)")
  have i1: "?I s1"
  proof (rule for_each_inv[where I = ?I, OF _ _ a])
    show "?I ({}, w)" using inv by simp
    fix x st r st' assume "?I st" "?A x st = (r, st')"
    then show "?I st'" using frame_create_folder[OF wf ne] by blast
  qed
  show ?thesis
  proof (cases r1)
    case None
    obtain r2 s2 where b: "for_each ?B files s1 = (r2, s2)" by (cases "for_each ?B files s1")
    have "?I s2"
    proof (rule for_each_inv[where I = ?I, OF _ i1 b])
      fix x st r st' assume "?I st" "?B x st = (r, st')"
      then show "?I st'" using frame_create_file[OF ne] by blast
    qed
    moreover have "w' = snd s2" using run a b None
      by (auto simp: create_files_def and_then_def split: prod.splits)
    ultimately show ?thesis by simp
  next
    case (Some e)
    then have "w' = snd s1" using run a
      by (auto simp: create_files_def and_then_def split: prod.splits)
    then show ?thesis using i1 by simp
  qed
qed

lemma frame_update_files:
  assumes ne: "sp \<noteq> rp"
    and inv: "frame_inv sp rp lf s t1 L0 w"
    and run: "update_files ev files sp rp fp w = (r, w')"
  shows "frame_inv sp rp lf s t1 L0 w'"
proof (rule for_each_inv[where I = "frame_inv sp rp lf s t1 L0", OF _ inv])
  show "for_each (update_file ev sp rp fp) files w = (r, w')"
    using run by (simp add: update_files_def)
next
  fix x st r st' assume "frame_inv sp rp lf s t1 L0 st" "update_file ev sp rp fp x st = (r, st')"
  then show "frame_inv sp rp lf s t1 L0 st'" using frame_update_file[OF ne] by blast
qed

section \<open>Snapshots of well-formed trees\<close>

lemma snapshot_Some:
  "trees w p = Some t \<Longrightarrow> fst (get_all_files_and_folders p w) = (files_of t, folders_of t)"
  by (simp add: get_all_files_and_folders_def files_of_def folders_of_def)

lemma in_folders_of:
  "distinct (map fst t) \<Longrightarrow> q \<in> set (folders_of t) \<longleftrightarrow> map_of t q = Some Folder"
  by (auto simp: folders_of_def image_iff)

lemma in_files_of:
  "distinct (map fst t) \<Longrightarrow> q \<in> set (files_of t) \<longleftrightarrow> is_file (map_of t q)"
proof
  assume d: "distinct (map fst t)" and "q \<in> set (files_of t)"
  then obtain n where "(q, n) \<in> set t" "n \<noteq> Folder" by (auto simp: files_of_def)
  then have "map_of t q = Some n" "n \<noteq> Folder" using d by auto
  then show "is_file (map_of t q)" by (cases n) (auto simp: is_file_def)
next
  assume d: "distinct (map fst t)" and "is_file (map_of t q)"
  then obtain m c where "map_of t q = Some (File m c)" by (auto simp: is_file_iff)
  then have "(q, File m c) \<in> set t" by (rule map_of_SomeD)
  then show "q \<in> set (files_of t)" by (force simp: files_of_def image_iff)
qed

lemma distinct_snapshot [simp]: "distinct (files_of t)" "distinct (folders_of t)"
  by (simp_all add: files_of_def folders_of_def)

lemma cycle_diff_Some:
  "trees w sp = Some s \<Longrightarrow> trees w rp = Some r
    \<Longrightarrow> cycle_diff sp rp w = compute_diff (files_of s, folders_of s) (files_of r, folders_of r)"
  by (simp add: cycle_diff_def snapshot_Some)

lemma compute_diff_fields [simp]:
  "deleted_files (compute_diff (sf, sd) (rf, rd)) = set_minus rf sf"
  "deleted_folders (compute_diff (sf, sd) (rf, rd)) = set_minus rd sd"
  "created_files (compute_diff (sf, sd) (rf, rd)) = set_minus sf rf"
  "created_folders (compute_diff (sf, sd) (rf, rd)) = set_minus sd rd"
  "common_files (compute_diff (sf, sd) (rf, rd)) = set_intersection sf rf"
  by (simp_all add: compute_diff_def)

lemma set_set_minus [simp]: "set (set_minus xs ys) = set xs - set ys"
  by (auto simp: set_minus_def)

lemma set_set_intersection [simp]: "set (set_intersection xs ys) = set xs \<inter> set ys"
  by (auto simp: set_intersection_def)

lemma distinct_set_minus [simp]: "distinct xs \<Longrightarrow> distinct (set_minus xs ys)"
  by (simp add: set_minus_def)

lemma distinct_set_intersection [simp]: "distinct xs \<Longrightarrow> distinct (set_intersection xs ys)"
  by (simp add: set_intersection_def)

text \<open>The paths to delete, read off two well-formed trees.\<close>

lemma in_deleted_folders:
  assumes "wf_tree s" "wf_tree r"
  shows "q \<in> set (set_minus (folders_of r) (folders_of s))
    \<longleftrightarrow> map_of r q = Some Folder \<and> map_of s q \<noteq> Some Folder"
  using assms by (simp add: in_folders_of wf_tree_distinct)

lemma in_deleted_files:
  assumes "wf_tree s" "wf_tree r"
  shows "q \<in> set (set_minus (files_of r) (files_of s))
    \<longleftrightarrow> is_file (map_of r q) \<and> \<not> is_file (map_of s q)"
  using assms by (simp add: in_files_of wf_tree_distinct)

lemma deletable_diff:
  assumes wf: "wf_tree s" "wf_tree r"
    and nr: "\<forall>p. \<not> refuses ev (Rmtree p) \<and> \<not> refuses ev (Remove p)"
    and safe: "substring_safe (set_minus (folders_of r) (folders_of s))
        (set_union (set_minus (folders_of r) (folders_of s)) (set_minus (files_of r) (files_of s)))"
  shows "deletable ev rp r (set_minus (folders_of r) (folders_of s)) (set_minus (files_of r) (files_of s))"
proof -
  let ?fo = "set_minus (folders_of r) (folders_of s)"
  let ?fi = "set_minus (files_of r) (files_of s)"
  have cover: "q \<in> set ?fo \<union> set ?fi" if F: "F \<in> set ?fo" and q: "inside F q" "map_of r q \<noteq> None" for F q
  proof -
    have sF: "map_of s F \<noteq> Some Folder" using F in_deleted_folders[OF wf] by simp
    obtain n where n: "map_of r q = Some n" using q(2) by auto
    have ns: "map_of s q = None"
    proof (rule ccontr)
      assume "map_of s q \<noteq> None"
      then obtain n' where "map_of s q = Some n'" by auto
      then have "map_of s F = Some Folder" using wf_tree_entry(2)[OF wf(1)] q(1) by blast
      then show False using sF by simp
    qed
    show ?thesis
    proof (cases n)
      case Folder
      then show ?thesis using n ns in_deleted_folders[OF wf] by simp
    next
      case (File m c)
      then show ?thesis using n ns in_deleted_files[OF wf] by (simp add: is_file_def)
    qed
  qed
  show ?thesis
    unfolding deletable_def
    using nr safe cover in_deleted_folders[OF wf] in_deleted_files[OF wf] by auto
qed

lemma count_list_filter_type:
  "fst x = ty \<Longrightarrow> count_list (filter (\<lambda>l. fst l = ty) xs) x = count_list xs x"
  by (induction xs) auto

lemma count_list_map_inj:
  assumes "distinct ys" "a \<in> set ys" "\<And>y. y \<in> set ys \<Longrightarrow> g y = g a \<Longrightarrow> y = a"
  shows "count_list (map g ys) (g a) = 1"
  using assms
proof (induction ys)
  case Nil
  then show ?case by simp
next
  case (Cons y ys)
  show ?case
  proof (cases "y = a")
    case True
    then have "a \<notin> set ys" using Cons.prems(1) by simp
    then have "\<forall>z\<in>set ys. g z \<noteq> g a" using Cons.prems(3) by auto
    then have "count_list (map g ys) (g a) = 0" by (induction ys) auto
    then show ?thesis using True by simp
  next
    case False
    then have "g y \<noteq> g a" using Cons.prems(3)[of y] by auto
    moreover have "count_list (map g ys) (g a) = 1"
      using Cons.IH Cons.prems False by auto
    ultimately show ?thesis by simp
  qed
qed

lemma log_file_ready_writable: "log_file_ready lf w \<Longrightarrow> log_writable lf w"
  by (simp add: log_file_ready_def log_writable_def)

lemma all_exist_ready:
  assumes "log_file_ready lf w" "trees w sp \<noteq> None" "trees w rp \<noteq> None"
  shows "all_exist [dirname lf, lf, sp, rp] w
    = (True, w\<lparr>calls := calls w @ map Exists [dirname lf, lf, sp, rp]\<rparr>)"
  using assms by (auto simp: log_file_ready_def os_path_exists_def called_def)

section \<open>Deletion completeness\<close>

lemma logged_calls_update [simp]: "logged lf (w\<lparr>calls := cs\<rparr>) = logged lf w"
  by (simp add: logged_def)

lemma log_writable_calls_update [simp]: "log_writable lf (w\<lparr>calls := cs\<rparr>) = log_writable lf w"
  by (simp add: log_writable_def)

text \<open>
  The state from which the appliers start, and the state the deletion applier hands to the
  creation applier, when no removal is refused and the substring test is the ancestor
  test on the paths to delete.
\<close>

lemma cycle_after_deletion:
  assumes s: "trees w sp = Some s" and r: "trees w rp = Some r" and ne: "sp \<noteq> rp"
    and wf: "wf_tree s" "wf_tree r" and lr: "log_file_ready lf w"
    and nr: "\<forall>p. \<not> refuses ev (Rmtree p) \<and> \<not> refuses ev (Remove p)"
    and safe: "substring_safe (deleted_folders (cycle_diff sp rp w))
        (set_union (deleted_folders (cycle_diff sp rp w)) (deleted_files (cycle_diff sp rp w)))"
    and run: "sync_folders ev sp rp lf w = (res, w')"
  shows "\<exists>w3 ys r3.
      trees w3 = (trees w)(rp \<mapsto> filter (\<lambda>(q, n). q \<notin> set (deleted_folders (cycle_diff sp rp w))
                                      \<union> set (deleted_files (cycle_diff sp rp w))) r)
      \<and> dirs w3 = dirs w \<and> log_writable lf w3
      \<and> logged lf w3 = logged lf w @ map (\<lambda>i. (DELETED, join rp i)) ys
      \<and> distinct ys
      \<and> set ys = set (deleted_folders (cycle_diff sp rp w)) \<union> set (deleted_files (cycle_diff sp rp w))
      \<and> and_then (create_files ev (created_folders (cycle_diff sp rp w))
                    (created_files (cycle_diff sp rp w)) sp rp (Some lf) w3)
           (update_files ev (common_files (cycle_diff sp rp w)) sp rp (Some lf)) = (r3, w')
      \<and> res = (case r3 of None \<Rightarrow> Inr True | Some e \<Rightarrow> Inl e)"
proof -
  let ?d = "cycle_diff sp rp w"
  have d: "?d = compute_diff (files_of s, folders_of s) (files_of r, folders_of r)"
    using s r by (rule cycle_diff_Some)
  let ?w0 = "w\<lparr>calls := calls w @ map Exists [dirname lf, lf, sp, rp]\<rparr>"
  let ?w2 = "called (Walk rp) (called (Walk sp) ?w0)"
  have ae: "all_exist [dirname lf, lf, sp, rp] w = (True, ?w0)"
    using all_exist_ready[OF lr] s r by simp
  have t2: "trees ?w2 = trees w" "dirs ?w2 = dirs w" "logged lf ?w2 = logged lf w" by simp_all
  have lw2: "log_writable lf ?w2" using log_file_ready_writable[OF lr] by simp
  have pre: "deletable ev rp r (deleted_folders ?d) (deleted_files ?d)"
    using deletable_diff[OF wf nr] safe unfolding d by simp
  have r2: "trees ?w2 rp = Some r" using r by simp
  from delete_files_exact[OF pre r2 lw2]
  obtain w3 ys where del:
    "delete_files ev (deleted_folders ?d) (deleted_files ?d) rp (Some lf) ?w2 = (None, w3)"
    "trees w3 = (trees ?w2)(rp \<mapsto> filter (\<lambda>(q, n). q \<notin> set (deleted_folders ?d) \<union> set (deleted_files ?d)) r)"
    "dirs w3 = dirs ?w2" "log_writable lf w3"
    "logged lf w3 = logged lf ?w2 @ map (\<lambda>i. (DELETED, join rp i)) ys"
    "distinct ys" "set ys = set (deleted_folders ?d) \<union> set (deleted_files ?d)"
    by blast
  obtain r3 w4 where rest:
    "and_then (create_files ev (created_folders ?d) (created_files ?d) sp rp (Some lf) w3)
       (update_files ev (common_files ?d) sp rp (Some lf)) = (r3, w4)"
    by fastforce
  have ad: "apply_diff ev ?d sp rp (Some lf) ?w2 = (r3, w4)"
    using del(1) rest by (simp add: apply_diff_def and_then_def)
  have sf: "sync_folders ev sp rp lf w = ((case r3 of None \<Rightarrow> Inr True | Some e \<Rightarrow> Inl e), w4)"
    using sync_folders_unfold[OF ae, of ev] ad by (cases r3) simp_all
  have "w' = w4" "res = (case r3 of None \<Rightarrow> Inr True | Some e \<Rightarrow> Inl e)"
    using run sf by simp_all
  then show ?thesis using del(2-7) rest t2 by (intro exI[of _ w3] exI[of _ ys] exI[of _ r3]) simp
qed

lemma frame_rest:
  assumes wf: "wf_tree s" and ne: "sp \<noteq> rp"
    and inv: "frame_inv sp rp lf s t1 L0 w3"
    and run: "and_then (create_files ev cfo cfi sp rp fp w3) (update_files ev co sp rp fp) = (r3, w')"
  shows "frame_inv sp rp lf s t1 L0 w'"
proof -
  obtain r4 w4 where c: "create_files ev cfo cfi sp rp fp w3 = (r4, w4)" by fastforce
  have f4: "frame_inv sp rp lf s t1 L0 w4" using frame_create_files[OF wf ne inv c] .
  show ?thesis
  proof (cases r4)
    case None
    then have "update_files ev co sp rp fp w4 = (r3, w')" using run c by (simp add: and_then_def)
    then show ?thesis using frame_update_files[OF ne f4] by simp
  next
    case (Some e)
    then have "w' = w4" using run c by (simp add: and_then_def)
    then show ?thesis using f4 by simp
  qed
qed

text \<open>
  Away from the substring slip the deletion applier removes a folder with what it holds
  and logs each removal once. Let the replica hold a folder \<open>A\<close> and a file
  \<open>Ax\<close> inside it, the source hold nothing at \<open>A\<close>, both trees be well formed,
  and the log file be ready. If the operating system refuses no removal, and among the
  paths to delete a folder's path occurs as a substring only in itself and in paths inside
  it, then after one cycle (whatever the creation and update appliers meet) the replica
  has no entry at \<open>A\<close> nor at \<open>Ax\<close>, and the log has gained exactly one
  \<open>DELETED\<close> line for \<open>A\<close> and exactly one for \<open>Ax\<close>.
\<close>

theorem deletion_completeness:
  assumes "trees w source_path = Some s" and "trees w replica_path = Some r"
    and "source_path \<noteq> replica_path"
    and "wf_tree s" and "wf_tree r" and "log_file_ready lf w"
    and "map_of r A = Some Folder" and "inside A Ax" and "is_file (map_of r Ax)"
    and "map_of s A = None"
    and "\<forall>p. \<not> refuses ev (Rmtree p) \<and> \<not> refuses ev (Remove p)"
    and "substring_safe (deleted_folders (cycle_diff source_path replica_path w))
        (set_union (deleted_folders (cycle_diff source_path replica_path w))
           (deleted_files (cycle_diff source_path replica_path w)))"
    and "sync_folders ev source_path replica_path lf w = (res, w')"
  shows "map_of (tree_at replica_path w') A = None
    \<and> map_of (tree_at replica_path w') Ax = None
    \<and> count_list (logged lf w') (DELETED, join replica_path A)
        = count_list (logged lf w) (DELETED, join replica_path A) + 1
    \<and> count_list (logged lf w') (DELETED, join replica_path Ax)
        = count_list (logged lf w) (DELETED, join replica_path Ax) + 1"
proof -
  let ?sp = source_path and ?rp = replica_path
  let ?d = "cycle_diff ?sp ?rp w"
  let ?D = "set (deleted_folders ?d) \<union> set (deleted_files ?d)"
  let ?r1 = "filter (\<lambda>(q, n). q \<notin> ?D) r"
  note wf = assms(4,5)
  have d: "?d = compute_diff (files_of s, folders_of s) (files_of r, folders_of r)"
    using assms(1,2) by (rule cycle_diff_Some)
  from cycle_after_deletion[OF assms(1,2,3) wf assms(6,11,12,13)]
  obtain w3 ys r3 where c:
    "trees w3 = (trees w)(?rp \<mapsto> ?r1)" "log_writable lf w3"
    "logged lf w3 = logged lf w @ map (\<lambda>i. (DELETED, join ?rp i)) ys"
    "distinct ys" "set ys = ?D"
    "and_then (create_files ev (created_folders ?d) (created_files ?d) ?sp ?rp (Some lf) w3)
       (update_files ev (common_files ?d) ?sp ?rp (Some lf)) = (r3, w')"
    by blast
  have sAx: "map_of s Ax = None"
  proof (rule ccontr)
    assume "map_of s Ax \<noteq> None"
    then obtain n where "map_of s Ax = Some n" by auto
    then have "map_of s A = Some Folder" using wf_tree_entry(2)[OF wf(1)] assms(8) by blast
    then show False using assms(10) by simp
  qed
  have AD: "A \<in> ?D" using assms(7,10) in_deleted_folders[OF wf] by (simp add: d)
  have AxD: "Ax \<in> ?D" using assms(9) sAx in_deleted_files[OF wf] by (simp add: d is_file_def)
  have relD: "relative q" if "q \<in> ?D" for q
  proof -
    have "map_of r q \<noteq> None"
      using that in_deleted_folders[OF wf] in_deleted_files[OF wf] by (auto simp: d is_file_iff)
    then show ?thesis using wf_tree_entry(1)[OF wf(2)] by auto
  qed
  have fol: "map_of s q = Some Folder" if "map_of ?r1 q = Some Folder" for q
  proof -
    have "q \<notin> ?D" "map_of r q = Some Folder"
      using that by (auto simp: map_of_filter_key split: if_splits)
    then show ?thesis using in_deleted_folders[OF wf] by (auto simp: d)
  qed
  have f3: "frame_inv ?sp ?rp lf s ?r1 (filter (\<lambda>l. fst l = DELETED) (logged lf w3)) w3"
    unfolding frame_inv_def using c(1) assms(1,3) fol by auto
  from frame_rest[OF wf(1) assms(3) f3 c(6)]
  obtain t where t: "trees w' ?rp = Some t" "\<forall>q. map_of s q = None \<longrightarrow> map_of t q = map_of ?r1 q"
    "filter (\<lambda>l. fst l = DELETED) (logged lf w') = filter (\<lambda>l. fst l = DELETED) (logged lf w3)"
    by (auto simp: frame_inv_def)
  have gone: "map_of ?r1 q = None" if "q \<in> ?D" for q
    using that by (auto simp: map_of_filter_key)
  have g1: "map_of (tree_at ?rp w') A = None"
    using t(1,2) assms(10) gone[OF AD] by (simp add: tree_at_def)
  have g2: "map_of (tree_at ?rp w') Ax = None"
    using t(1,2) sAx gone[OF AxD] by (simp add: tree_at_def)
  have cnt: "count_list (logged lf w') (DELETED, join ?rp a)
      = count_list (logged lf w) (DELETED, join ?rp a) + 1" if a: "a \<in> ?D" for a
  proof -
    have inj: "y = a" if "y \<in> set ys" "(DELETED, join ?rp y) = (DELETED, join ?rp a)" for y
      using that join_inject[of y a ?rp] relD a c(5) by auto
    have one: "count_list (map (\<lambda>i. (DELETED, join ?rp i)) ys) (DELETED, join ?rp a) = 1"
      using count_list_map_inj[of ys a "\<lambda>i. (DELETED, join ?rp i)"] c(4,5) a inj by blast
    have "count_list (logged lf w') (DELETED, join ?rp a)
        = count_list (filter (\<lambda>l. fst l = DELETED) (logged lf w')) (DELETED, join ?rp a)"
      by (simp add: count_list_filter_type)
    also have "\<dots> = count_list (logged lf w3) (DELETED, join ?rp a)"
      unfolding t(3) by (simp add: count_list_filter_type)
    also have "\<dots> = count_list (logged lf w) (DELETED, join ?rp a) + 1"
      unfolding c(3) using one by simp
    finally show ?thesis .
  qed
  show ?thesis using g1 g2 cnt[OF AD] cnt[OF AxD] by simp
qed

theorem deletion_completeness_witness:
  "map_of (tree_at ''rep'' (snd (sync_folders no_refusal ''src'' ''rep'' ''log/l.txt'' nested_example))) ''A''
     = None
   \<and> map_of (tree_at ''rep'' (snd (sync_folders no_refusal ''src'' ''rep'' ''log/l.txt'' nested_example))) ''A/x''
     = None
   \<and> count_list (logged ''log/l.txt'' (snd (sync_folders no_refusal ''src'' ''rep'' ''log/l.txt'' nested_example)))
        (DELETED, ''rep/A'') = 1
   \<and> count_list (logged ''log/l.txt'' (snd (sync_folders no_refusal ''src'' ''rep'' ''log/l.txt'' nested_example)))
        (DELETED, ''rep/A/x'') = 1"
proof -
  let ?r = "[(''A'', Folder), (''A/x'', File 1 ''hi'')]"
  let ?run = "sync_folders no_refusal ''src'' ''rep'' ''log/l.txt'' nested_example"
  have h1: "trees nested_example ''src'' = Some []" and h2: "trees nested_example ''rep'' = Some ?r"
    by (simp_all add: nested_example_def example_world_def)
  have h3: "''src'' \<noteq> ''rep''" by simp
  have h4: "wf_tree []" by (simp add: wf_tree_def)
  have h5: "wf_tree ?r" by (simp add: wf_tree_def relative_def ancestors_def sep_def)
  have h6: "log_file_ready ''log/l.txt'' nested_example"
    by (simp add: log_file_ready_def nested_example_def example_world_def dirname_def sep_def)
  have h7: "map_of ?r ''A'' = Some Folder" by simp
  have h8: "inside ''A'' ''A/x''" by (simp add: inside_def sep_def)
  have h9: "is_file (map_of ?r ''A/x'')" by (simp add: is_file_def)
  have h10: "map_of [] ''A'' = None" by simp
  have h11: "\<forall>p. \<not> refuses no_refusal (Rmtree p) \<and> \<not> refuses no_refusal (Remove p)"
    by (simp add: no_refusal_def)
  have d: "cycle_diff ''src'' ''rep'' nested_example
      = \<lparr>deleted_files = [''A/x''], deleted_folders = [''A''], created_files = [],
         created_folders = [], common_files = []\<rparr>"
    by (simp add: cycle_diff_def nested_example_def example_world_def get_all_files_and_folders_def
        compute_diff_def set_minus_def set_intersection_def)
  have h12: "substring_safe (deleted_folders (cycle_diff ''src'' ''rep'' nested_example))
        (set_union (deleted_folders (cycle_diff ''src'' ''rep'' nested_example))
           (deleted_files (cycle_diff ''src'' ''rep'' nested_example)))"
    unfolding d by (simp add: substring_safe_def set_union_def inside_def sep_def)
  have h13: "?run = (fst ?run, snd ?run)" by simp
  have l0: "logged ''log/l.txt'' nested_example = []"
    by (simp add: logged_def nested_example_def example_world_def)
  have j: "join ''rep'' ''A'' = ''rep/A''" "join ''rep'' ''A/x'' = ''rep/A/x''"
    by (simp_all add: join_def sep_def)
  from deletion_completeness[OF h1 h2 h3 h4 h5 h6 h7 h8 h9 h10 h11 h12 h13]
  show ?thesis by (simp add: l0 j)
qed

section \<open>Deletions marked by substring\<close>

text \<open>
  Claim C2 at a failing input. The source is empty; the replica holds the folders
  \<open>foo\<close> and \<open>xfoo\<close> and the file \<open>xfoo/x\<close>, so \<open>A\<close> is \<open>xfoo\<close>. No
  call is refused. The folders to delete form a Python set, and both have depth 0, so
  either may come first. When \<open>foo\<close> comes first the cycle removes \<open>foo\<close>, marks
  \<open>xfoo\<close> and \<open>xfoo/x\<close> as deleted because \<open>foo\<close> occurs in their paths, logs
  both as deleted and removes neither: \<open>A\<close> and its file are still in the replica.
  When \<open>xfoo\<close> comes first it is removed with its file and both are logged; then
  \<open>foo\<close> is removed, and \<open>xfoo\<close> and \<open>xfoo/x\<close> are marked and logged a second
  time: two \<open>DELETED\<close> lines for \<open>A\<close> and two for its file.
\<close>

theorem sync_keeps_or_logs_twice_folder_marked_by_substring:
  "(case sync_folders no_refusal ''src'' ''rep'' ''log/l.txt''
      (example_world [] [(''foo'', Folder), (''xfoo'', Folder), (''xfoo/x'', File 1 ''hi'')]) of
      (r, w) \<Rightarrow> (r, tree_at ''rep'' w, logged ''log/l.txt'' w, calls w))
   = (Inr True,
      [(''xfoo'', Folder), (''xfoo/x'', File 1 ''hi'')],
      [(DELETED, ''rep/foo''), (DELETED, ''rep/xfoo''), (DELETED, ''rep/xfoo/x'')],
      [Exists ''log'', Exists ''log/l.txt'', Exists ''src'', Exists ''rep'',
       Walk ''src'', Walk ''rep'', Rmtree ''rep/foo''])
   \<and>
   (case sync_folders no_refusal ''src'' ''rep'' ''log/l.txt''
      (example_world [] [(''xfoo'', Folder), (''xfoo/x'', File 1 ''hi''), (''foo'', Folder)]) of
      (r, w) \<Rightarrow> (r, tree_at ''rep'' w, logged ''log/l.txt'' w, calls w))
   = (Inr True,
      [],
      [(DELETED, ''rep/xfoo''), (DELETED, ''rep/xfoo/x''),
       (DELETED, ''rep/xfoo''), (DELETED, ''rep/foo''), (DELETED, ''rep/xfoo/x'')],
      [Exists ''log'', Exists ''log/l.txt'', Exists ''src'', Exists ''rep'',
       Walk ''src'', Walk ''rep'', Rmtree ''rep/xfoo'', Rmtree ''rep/foo''])"
  by (simp add: example_defs model_defs)

section \<open>The creation applier when nothing is refused\<close>

lemma map_of_write_entries:
  "map_of (write_entries new t) q
     = (case map_of (rev new) q of Some v \<Rightarrow> Some v | None \<Rightarrow> map_of t q)"
proof (induction new arbitrary: t)
  case Nil
  then show ?case by (simp add: write_entries_def)
next
  case (Cons a new)
  obtain k v where a: "a = (k, v)" by (cases a)
  have w: "write_entries (a # new) t = write_entries new (AList.update k v t)"
    by (simp add: write_entries_def a)
  show ?case
    unfolding w Cons.IH
    by (auto simp: a update_conv' map_add_def split: option.splits)
qed

lemma distinct_write_entries:
  "distinct (map fst t) \<Longrightarrow> distinct (map fst (write_entries new t))"
proof (induction new arbitrary: t)
  case Nil
  then show ?case by (simp add: write_entries_def)
next
  case (Cons a new)
  obtain k v where a: "a = (k, v)" by (cases a)
  have w: "write_entries (a # new) t = write_entries new (AList.update k v t)"
    by (simp add: write_entries_def a)
  show ?case unfolding w using Cons.IH Cons.prems by (simp add: distinct_update)
qed

lemma copytree_result:
  assumes wf: "wf_tree s" and sF: "map_of s F = Some Folder"
    and anc: "\<forall>a. inside a F \<longrightarrow> map_of t a \<noteq> None"
  shows "map_of (write_entries (copied_entries s t F) t) q
     = (if q = F \<or> (inside F q \<and> map_of s q \<noteq> None) then map_of s q else map_of t q)"
proof -
  let ?new = "copied_entries s t F"
  have no_anc: "filter (\<lambda>a. map_of t a = None) (ancestors F) = []"
    using anc by (auto simp: filter_empty_conv inside_iff_ancestor)
  have new: "?new = (F, Folder) # filter (\<lambda>(q, n). inside F q) s"
    by (simp add: copied_entries_def no_anc)
  have keys: "q \<in> fst ` set ?new \<longleftrightarrow> q = F \<or> (inside F q \<and> map_of s q \<noteq> None)"
    unfolding new by (auto simp: map_of_eq_None_iff image_iff) force+
  show ?thesis
  proof (cases "q \<in> fst ` set ?new")
    case True
    then have "map_of (rev ?new) q \<noteq> None" by (simp add: map_of_eq_None_iff)
    then obtain v where v: "map_of (rev ?new) q = Some v" by auto
    then have "(q, v) \<in> set ?new" using map_of_SomeD by fastforce
    then have "map_of s q = Some v" using copied_entries_source[OF wf sF] by blast
    then show ?thesis using v True keys by (simp add: map_of_write_entries)
  next
    case False
    then have "map_of (rev ?new) q = None" by (simp add: map_of_eq_None_iff)
    then have e: "map_of (write_entries ?new t) q = map_of t q"
      by (simp add: map_of_write_entries)
    have n: "\<not> (q = F \<or> (inside F q \<and> map_of s q \<noteq> None))" using False keys by blast
    show ?thesis unfolding e using n by auto
  qed
qed

lemma create_folder_step:
  assumes pre: "creatable ev sp rp s r1 folders files"
    and wf: "wf_tree s" and ne: "sp \<noteq> rp"
    and inv: "cre_inv sp rp lf s r1 (set folders \<union> set files) P cre w"
    and F: "F \<in> set folders" "F \<notin> P"
    and srt: "\<forall>G\<in>set folders. depth G < depth F \<longrightarrow> G \<in> P"
  shows "\<exists>cre' w'.
     create_folder ev (set_union folders files) sp rp (Some lf) F (cre, w) = (None, cre', w')
     \<and> cre_inv sp rp lf s r1 (set folders \<union> set files) (insert F P) cre' w'"
proof -
  let ?C = "set folders \<union> set files"
  let ?items = "set_union folders files"
  from inv obtain t where ts: "trees w sp = Some s" and tr: "trees w rp = Some t"
    and dt: "distinct (map fst t)"
    and mt: "\<forall>q. map_of t q = (if q \<in> cre then map_of s q else map_of r1 q)"
    and lw: "log_writable lf w" and cC: "cre \<subseteq> ?C"
    and i5: "\<forall>i\<in>cre. \<exists>G\<in>P. G = i \<or> inside G i"
    and i6: "\<forall>G\<in>P. \<forall>i\<in>?C. (G = i \<or> inside G i) \<longrightarrow> i \<in> cre"
    by (auto simp: cre_inv_def)
  have FC: "F \<in> ?C" using F(1) by simp
  have safe: "i = F \<or> inside F i" if "i \<in> ?C" "sublist F i" for i
    using pre F(1) that substring_safeD[of folders ?items F i] by (auto simp: creatable_def)
  have cover: "q \<in> ?C" if "inside F q" "map_of s q \<noteq> None" for q
    using pre F(1) that unfolding creatable_def by blast
  have inC: "map_of s i \<noteq> None" if "i \<in> ?C" for i
    using pre that by (auto simp: creatable_def is_file_iff)
  show ?thesis
  proof (cases "F \<in> cre")
    case True
    have run: "create_folder ev ?items sp rp (Some lf) F (cre, w) = (None, cre, w)"
      using True by (simp add: create_folder_def)
    have i6': "\<forall>G\<in>insert F P. \<forall>i\<in>?C. (G = i \<or> inside G i) \<longrightarrow> i \<in> cre"
    proof (intro ballI impI)
      fix G i assume G: "G \<in> insert F P" and i: "i \<in> ?C" and r: "G = i \<or> inside G i"
      show "i \<in> cre"
      proof (cases "G = F")
        case False
        then show ?thesis using G i r i6 by blast
      next
        case GF: True
        from i5 True obtain G' where G': "G' \<in> P" "G' = F \<or> inside G' F" by blast
        then have "inside G' F" using F(2) by auto
        then have "G' = i \<or> inside G' i" using r GF by (auto intro: inside_trans)
        then show ?thesis using i6 G'(1) i by blast
      qed
    qed
    have "cre_inv sp rp lf s r1 ?C (insert F P) cre w"
      unfolding cre_inv_def using ts tr dt mt lw cC i5 i6' by blast
    then show ?thesis using run by blast
  next
    case False
    let ?M = "{i \<in> set ?items. sublist F i}"
    let ?c = "Copytree (join sp F) (join rp F)"
    let ?t' = "write_entries (copied_entries s t F) t"
    let ?w1 = "set_tree rp ?t' (called ?c w)"
    let ?ms = "map (\<lambda>i. (CREATED, join rp i)) (filter (sublist F) ?items)"
    let ?w2 = "write_lines ?ms lf ?w1"
    have sF: "map_of s F = Some Folder" and r1F: "map_of r1 F = None"
      and nr: "\<not> refuses ev ?c"
      using pre F(1) by (auto simp: creatable_def)
    have tF: "map_of t F = None" using mt False r1F by simp
    have anc: "map_of t a = Some Folder" if a: "inside a F" for a
    proof -
      have sa: "map_of s a = Some Folder" using wf_tree_entry(2)[OF wf sF a] .
      have "map_of r1 a = Some Folder \<or> a \<in> set folders"
        using pre FC a unfolding creatable_def by blast
      then show ?thesis
      proof
        assume "map_of r1 a = Some Folder"
        then show ?thesis using mt sa by simp
      next
        assume af: "a \<in> set folders"
        have "depth a < depth F" using a by (rule depth_inside)
        then have "a \<in> P" using srt af by blast
        then have "F \<in> cre" using i6 FC a by blast
        then show ?thesis using False by simp
      qed
    qed
    have nofile: "\<not> list_ex (\<lambda>a. is_file (map_of t a)) (ancestors F)"
      using anc by (auto simp: list_ex_iff inside_iff_ancestor is_file_def)
    have cp: "shutil_copytree ev sp rp F w = (None, ?w1)"
      using nr ts tr sF tF nofile by (simp add: shutil_copytree_def Let_def)
    have lw1: "log_writable lf ?w1" using lw tr by simp
    have run: "create_folder ev ?items sp rp (Some lf) F (cre, w) = (None, cre \<union> ?M, ?w2)"
      using False cp create_marking_eq[OF lw1] by (simp add: create_folder_def except_OSError_def)
    have Msafe: "?M = {i \<in> ?C. i = F \<or> inside F i}"
      using safe by (auto intro: inside_sublist)
    have anc': "\<forall>a. inside a F \<longrightarrow> map_of t a \<noteq> None" using anc by simp
    have mt': "map_of ?t' q = (if q \<in> cre \<union> ?M then map_of s q else map_of r1 q)" for q
    proof -
      have e: "map_of ?t' q
          = (if q = F \<or> (inside F q \<and> map_of s q \<noteq> None) then map_of s q else map_of t q)"
        using copytree_result[OF wf sF anc'] .
      show ?thesis
      proof (cases "q = F \<or> (inside F q \<and> map_of s q \<noteq> None)")
        case True
        then have "q \<in> ?M" using Msafe FC cover by auto
        then show ?thesis using e True by simp
      next
        case nw: False
        have "q \<notin> ?M" using nw Msafe inC[of q] by auto
        have "map_of ?t' q = map_of t q" using e nw by (simp only: if_False)
        also have "\<dots> = (if q \<in> cre then map_of s q else map_of r1 q)" using mt by blast
        also have "\<dots> = (if q \<in> cre \<union> ?M then map_of s q else map_of r1 q)"
          using \<open>q \<notin> ?M\<close> by (simp only: Un_iff) simp
        finally show ?thesis .
      qed
    qed
    have tr2: "trees ?w2 rp = Some ?t'" by simp
    have ts2: "trees ?w2 sp = Some s" using ts ne by simp
    have dt2: "distinct (map fst ?t')" using dt by (rule distinct_write_entries)
    have lw2: "log_writable lf ?w2" using lw1 by simp
    have cC2: "cre \<union> ?M \<subseteq> ?C" using cC by auto
    have i5': "\<forall>i\<in>cre \<union> ?M. \<exists>G\<in>insert F P. G = i \<or> inside G i"
      using i5 Msafe by auto
    have i6': "\<forall>G\<in>insert F P. \<forall>i\<in>?C. (G = i \<or> inside G i) \<longrightarrow> i \<in> cre \<union> ?M"
      using i6 Msafe by auto
    have "cre_inv sp rp lf s r1 ?C (insert F P) (cre \<union> ?M) ?w2"
      unfolding cre_inv_def using ts2 tr2 dt2 mt' lw2 cC2 i5' i6' by blast
    then show ?thesis using run by blast
  qed
qed

lemma create_folder_loop:
  assumes pre: "creatable ev sp rp s r1 folders files"
    and wf: "wf_tree s" and ne: "sp \<noteq> rp"
  shows "sorted (map depth (ps @ xs)) \<Longrightarrow> distinct (ps @ xs) \<Longrightarrow> set (ps @ xs) = set folders
    \<Longrightarrow> cre_inv sp rp lf s r1 (set folders \<union> set files) (set ps) cre w
    \<Longrightarrow> \<exists>cre' w'.
         for_each (create_folder ev (set_union folders files) sp rp (Some lf)) xs (cre, w)
           = (None, cre', w')
         \<and> cre_inv sp rp lf s r1 (set folders \<union> set files) (set (ps @ xs)) cre' w'"
proof (induction xs arbitrary: ps cre w)
  case Nil
  then show ?case by auto
next
  case (Cons F xs)
  have F: "F \<in> set folders" "F \<notin> set ps" using Cons.prems(2,3) by auto
  have srt: "\<forall>G\<in>set folders. depth G < depth F \<longrightarrow> G \<in> set ps"
  proof (intro ballI impI)
    fix G assume G: "G \<in> set folders" and d: "depth G < depth F"
    have "G \<in> set ps \<or> G = F \<or> G \<in> set xs" using G Cons.prems(3) by auto
    moreover have "depth F \<le> depth G" if "G \<in> set xs"
      using Cons.prems(1) that by (auto simp: sorted_append)
    ultimately show "G \<in> set ps" using d by auto
  qed
  from create_folder_step[OF pre wf ne Cons.prems(4) F srt]
  obtain cre1 w1 where s1:
    "create_folder ev (set_union folders files) sp rp (Some lf) F (cre, w) = (None, cre1, w1)"
    "cre_inv sp rp lf s r1 (set folders \<union> set files) (insert F (set ps)) cre1 w1"
    by blast
  have p1: "sorted (map depth ((ps @ [F]) @ xs))" "distinct ((ps @ [F]) @ xs)"
    "set ((ps @ [F]) @ xs) = set folders"
    using Cons.prems(1,2,3) by simp_all
  have i1: "cre_inv sp rp lf s r1 (set folders \<union> set files) (set (ps @ [F])) cre1 w1"
    using s1(2) by simp
  from Cons.IH[OF p1 i1] obtain cre' w' where s2:
    "for_each (create_folder ev (set_union folders files) sp rp (Some lf)) xs (cre1, w1)
       = (None, cre', w')"
    "cre_inv sp rp lf s r1 (set folders \<union> set files) (set ((ps @ [F]) @ xs)) cre' w'"
    by blast
  show ?case using s1(1) s2 by (auto simp: and_then_def)
qed

lemma create_file_step:
  assumes pre: "creatable ev sp rp s r1 folders files"
    and wf: "wf_tree s" and ne: "sp \<noteq> rp"
    and cov: "\<forall>G\<in>set folders. \<forall>i\<in>set folders \<union> set files. (G = i \<or> inside G i) \<longrightarrow> i \<in> cre"
    and inv: "cfile_inv sp rp lf s r1 cre ps w"
    and f: "f \<in> set files" "f \<notin> set ps"
  shows "\<exists>w'. create_file ev sp rp (Some lf) f (cre, w) = (None, cre, w')
     \<and> cfile_inv sp rp lf s r1 cre (ps @ [f]) w'"
proof -
  from inv obtain t where ts: "trees w sp = Some s" and tr: "trees w rp = Some t"
    and dt: "distinct (map fst t)"
    and mt: "\<forall>q. map_of t q = (if q \<in> cre \<union> set ps then map_of s q else map_of r1 q)"
    and lw: "log_writable lf w"
    by (auto simp: cfile_inv_def)
  show ?thesis
  proof (cases "f \<in> cre")
    case True
    have run: "create_file ev sp rp (Some lf) f (cre, w) = (None, cre, w)"
      using True by (simp add: create_file_def)
    have "cre \<union> set (ps @ [f]) = cre \<union> set ps" using True by auto
    then have "cfile_inv sp rp lf s r1 cre (ps @ [f]) w"
      unfolding cfile_inv_def using ts tr dt mt lw by auto
    then show ?thesis using run by blast
  next
    case False
    let ?c = "Copy2 (join sp f) (join rp f)"
    obtain m c where sf: "map_of s f = Some (File m c)"
      using pre f(1) by (auto simp: creatable_def is_file_iff)
    have r1f: "map_of r1 f = None" and nr: "\<not> refuses ev ?c"
      using pre f(1) by (auto simp: creatable_def)
    let ?t' = "AList.update f (File m c) t"
    let ?w1 = "set_tree rp ?t' (called ?c w)"
    let ?w2 = "write_line (CREATED, join rp f) lf ?w1"
    have tf: "map_of t f = None" using mt False f(2) r1f by simp
    have par: "parent_error t f = None"
    proof -
      have "relative f" using wf sf by (rule wf_tree_entry)
      then consider "dirname f = []" | "inside (dirname f) f"
        using dirname_cases[of f] by auto
      then show ?thesis
      proof cases
        case 1
        then show ?thesis by (simp add: parent_error_def)
      next
        case 2
        have sa: "map_of s (dirname f) = Some Folder" using wf_tree_entry(2)[OF wf sf 2] .
        have "map_of r1 (dirname f) = Some Folder \<or> dirname f \<in> set folders"
          using pre f(1) 2 unfolding creatable_def by blast
        moreover have "dirname f \<notin> set folders"
        proof
          assume "dirname f \<in> set folders"
          then have "f \<in> cre" using cov f(1) 2 by blast
          then show False using False by simp
        qed
        ultimately have "map_of t (dirname f) = Some Folder" using mt sa by simp
        then show ?thesis by (simp add: parent_error_def)
      qed
    qed
    have cp: "shutil_copy2 ev sp rp f w = (None, ?w1)"
      using nr ts tr sf tf par by (simp add: shutil_copy2_def Let_def)
    have lw1: "log_writable lf ?w1" using lw tr by simp
    have run: "create_file ev sp rp (Some lf) f (cre, w) = (None, cre, ?w2)"
      using False cp log_message_writable[OF lw1]
      by (simp add: create_file_def except_OSError_def and_then_def)
    have mt': "\<forall>q. map_of ?t' q = (if q \<in> cre \<union> set (ps @ [f]) then map_of s q else map_of r1 q)"
      using mt sf by (auto simp: update_conv')
    have tr2: "trees ?w2 rp = Some ?t'" by simp
    have ts2: "trees ?w2 sp = Some s" using ts ne by simp
    have dt2: "distinct (map fst ?t')" using dt by (simp add: distinct_update)
    have lw2: "log_writable lf ?w2" using lw1 by (rule log_writable_write_line)
    have "cfile_inv sp rp lf s r1 cre (ps @ [f]) ?w2"
      unfolding cfile_inv_def using ts2 tr2 dt2 mt' lw2 by blast
    then show ?thesis using run by blast
  qed
qed

lemma create_file_loop:
  assumes pre: "creatable ev sp rp s r1 folders files"
    and wf: "wf_tree s" and ne: "sp \<noteq> rp"
    and cov: "\<forall>G\<in>set folders. \<forall>i\<in>set folders \<union> set files. (G = i \<or> inside G i) \<longrightarrow> i \<in> cre"
  shows "distinct (ps @ xs) \<Longrightarrow> set (ps @ xs) \<subseteq> set files
    \<Longrightarrow> cfile_inv sp rp lf s r1 cre ps w
    \<Longrightarrow> \<exists>w'. for_each (create_file ev sp rp (Some lf)) xs (cre, w) = (None, cre, w')
         \<and> cfile_inv sp rp lf s r1 cre (ps @ xs) w'"
proof (induction xs arbitrary: ps w)
  case Nil
  then show ?case by auto
next
  case (Cons f xs)
  have f: "f \<in> set files" "f \<notin> set ps" using Cons.prems(1,2) by auto
  from create_file_step[OF pre wf ne cov Cons.prems(3) f]
  obtain w1 where s1: "create_file ev sp rp (Some lf) f (cre, w) = (None, cre, w1)"
    "cfile_inv sp rp lf s r1 cre (ps @ [f]) w1" by blast
  have p1: "distinct ((ps @ [f]) @ xs)" "set ((ps @ [f]) @ xs) \<subseteq> set files"
    using Cons.prems(1,2) by simp_all
  from Cons.IH[OF p1 s1(2)] obtain w' where s2:
    "for_each (create_file ev sp rp (Some lf)) xs (cre, w1) = (None, cre, w')"
    "cfile_inv sp rp lf s r1 cre ((ps @ [f]) @ xs) w'" by blast
  show ?case using s1(1) s2 by (auto simp: and_then_def)
qed

lemma create_files_exact:
  assumes pre: "creatable ev sp rp s r1 folders files"
    and wf: "wf_tree s" and ne: "sp \<noteq> rp"
    and ts: "trees w sp = Some s" and tr: "trees w rp = Some r1"
    and d1: "distinct (map fst r1)" and lw: "log_writable lf w"
  shows "\<exists>w' t. create_files ev folders files sp rp (Some lf) w = (None, w')
     \<and> trees w' sp = Some s \<and> trees w' rp = Some t \<and> distinct (map fst t)
     \<and> (\<forall>q. map_of t q = (if q \<in> set folders \<union> set files then map_of s q else map_of r1 q))
     \<and> log_writable lf w'"
proof -
  let ?C = "set folders \<union> set files"
  let ?S = "sort_key depth folders"
  have srt: "sorted (map depth ([] @ ?S))" "distinct ([] @ ?S)" "set ([] @ ?S) = set folders"
    using pre by (simp_all add: creatable_def)
  have i0: "cre_inv sp rp lf s r1 ?C (set []) {} w"
    unfolding cre_inv_def using ts tr d1 lw by simp
  from create_folder_loop[OF pre wf ne srt i0]
  obtain cre w1 where a:
    "for_each (create_folder ev (set_union folders files) sp rp (Some lf)) ?S ({}, w) = (None, cre, w1)"
    "cre_inv sp rp lf s r1 ?C (set ([] @ ?S)) cre w1" by blast
  from a(2) obtain t1 where ts1: "trees w1 sp = Some s" and tr1: "trees w1 rp = Some t1"
    and dt1: "distinct (map fst t1)"
    and mt1: "\<forall>q. map_of t1 q = (if q \<in> cre then map_of s q else map_of r1 q)"
    and lw1: "log_writable lf w1" and cC: "cre \<subseteq> ?C"
    and i6: "\<forall>G\<in>set ([] @ ?S). \<forall>i\<in>?C. (G = i \<or> inside G i) \<longrightarrow> i \<in> cre"
    by (auto simp: cre_inv_def)
  have cov: "\<forall>G\<in>set folders. \<forall>i\<in>?C. (G = i \<or> inside G i) \<longrightarrow> i \<in> cre"
    using i6 by simp
  have fc: "set folders \<subseteq> cre" using cov by auto
  have f0: "cfile_inv sp rp lf s r1 cre [] w1"
    unfolding cfile_inv_def using ts1 tr1 dt1 mt1 lw1 by simp
  have df: "distinct ([] @ files)" "set ([] @ files) \<subseteq> set files"
    using pre by (simp_all add: creatable_def)
  from create_file_loop[OF pre wf ne cov df f0] obtain w' where b:
    "for_each (create_file ev sp rp (Some lf)) files (cre, w1) = (None, cre, w')"
    "cfile_inv sp rp lf s r1 cre ([] @ files) w'" by blast
  have run: "create_files ev folders files sp rp (Some lf) w = (None, w')"
    using a(1) b(1) by (simp add: create_files_def and_then_def)
  have un: "cre \<union> set files = ?C" using fc cC by auto
  from b(2) obtain t where r: "trees w' sp = Some s" "trees w' rp = Some t" "distinct (map fst t)"
    "\<forall>q. map_of t q = (if q \<in> cre \<union> set ([] @ files) then map_of s q else map_of r1 q)"
    "log_writable lf w'"
    by (auto simp: cfile_inv_def)
  have "\<forall>q. map_of t q = (if q \<in> ?C then map_of s q else map_of r1 q)"
    using r(4) un by simp
  then show ?thesis using run r(1,2,3,5) by blast
qed

section \<open>One cycle with nothing refused makes the replica mirror the source\<close>

lemma in_common_files:
  assumes "wf_tree s" "wf_tree r"
  shows "q \<in> set (set_intersection (files_of s) (files_of r))
    \<longleftrightarrow> is_file (map_of s q) \<and> is_file (map_of r q)"
  using assms by (simp add: in_files_of wf_tree_distinct)

lemma creatable_diff:
  assumes wf: "wf_tree s" "wf_tree r"
    and nr: "\<forall>a b. \<not> refuses ev (Copytree a b) \<and> \<not> refuses ev (Copy2 a b)"
    and safe: "substring_safe (set_minus (folders_of s) (folders_of r))
        (set_union (set_minus (folders_of s) (folders_of r)) (set_minus (files_of s) (files_of r)))"
    and r1: "\<forall>q. map_of r1 q
        = (if q \<in> set (set_minus (folders_of r) (folders_of s)) \<union> set (set_minus (files_of r) (files_of s))
           then None else map_of r q)"
  shows "creatable ev sp rp s r1 (set_minus (folders_of s) (folders_of r)) (set_minus (files_of s) (files_of r))"
proof -
  let ?Cd = "set_minus (folders_of s) (folders_of r)"
  let ?Cf = "set_minus (files_of s) (files_of r)"
  let ?Dd = "set_minus (folders_of r) (folders_of s)"
  let ?Df = "set_minus (files_of r) (files_of s)"
  note Cd = in_deleted_folders[OF wf(2) wf(1)]
  note Cf = in_deleted_files[OF wf(2) wf(1)]
  note Dd = in_deleted_folders[OF wf]
  note Df = in_deleted_files[OF wf]
  have folder_not_file: "\<not> is_file (Some Folder)" "\<not> is_file None" by (simp_all add: is_file_def)
  have kinds: "x = None \<or> x = Some Folder \<or> is_file x" for x
    by (auto simp: is_file_def split: option.splits node.splits)
  have b: "map_of s F = Some Folder \<and> map_of r1 F = None" if F: "F \<in> set ?Cd" for F
  proof -
    have sF: "map_of s F = Some Folder" and rF: "map_of r F \<noteq> Some Folder" using F Cd by auto
    have "map_of r1 F = None"
    proof (cases "F \<in> set ?Dd \<union> set ?Df")
      case True
      then show ?thesis using r1 by simp
    next
      case False
      then have "\<not> is_file (map_of r F)" using Df[of F] sF folder_not_file by auto
      then have "map_of r F = None" using rF kinds[of "map_of r F"] by auto
      then show ?thesis using r1 False by simp
    qed
    then show ?thesis using sF by simp
  qed
  have c: "is_file (map_of s f) \<and> map_of r1 f = None" if f: "f \<in> set ?Cf" for f
  proof -
    have sf: "is_file (map_of s f)" and rf: "\<not> is_file (map_of r f)" using f Cf by auto
    have "map_of r1 f = None"
    proof (cases "f \<in> set ?Dd \<union> set ?Df")
      case True
      then show ?thesis using r1 by simp
    next
      case False
      then have "map_of r f \<noteq> Some Folder" using Dd[of f] sf folder_not_file by auto
      then have "map_of r f = None" using rf kinds[of "map_of r f"] by auto
      then show ?thesis using r1 False by simp
    qed
    then show ?thesis using sf by simp
  qed
  have d: "map_of r1 a = Some Folder \<or> a \<in> set ?Cd" if i: "i \<in> set ?Cd \<union> set ?Cf" and a: "inside a i" for i a
  proof -
    obtain n where "map_of s i = Some n" using i Cd[of i] Cf[of i] by (auto simp: is_file_iff)
    then have sa: "map_of s a = Some Folder" using wf_tree_entry(2)[OF wf(1) _ a] by blast
    show ?thesis
    proof (cases "map_of r a = Some Folder")
      case True
      have "a \<notin> set ?Dd" using Dd[of a] sa by blast
      moreover have "a \<notin> set ?Df" using Df[of a] True folder_not_file by auto
      ultimately have "a \<notin> set ?Dd \<union> set ?Df" by blast
      then have "map_of r1 a = map_of r a" using r1[rule_format, of a] by (simp only: if_False)
      then show ?thesis using True by simp
    next
      case False
      then show ?thesis using Cd[of a] sa by simp
    qed
  qed
  have e: "q \<in> set ?Cd \<union> set ?Cf" if F: "F \<in> set ?Cd" and q: "inside F q" "map_of s q \<noteq> None" for F q
  proof -
    have rF: "map_of r F \<noteq> Some Folder" using F Cd by auto
    have nq: "map_of r q = None"
    proof (rule ccontr)
      assume "map_of r q \<noteq> None"
      then obtain n where "map_of r q = Some n" by auto
      then have "map_of r F = Some Folder" using wf_tree_entry(2)[OF wf(2) _ q(1)] by blast
      then show False using rF by simp
    qed
    show ?thesis using kinds[of "map_of s q"] q(2) nq Cd[of q] Cf[of q] folder_not_file by auto
  qed
  show ?thesis
    unfolding creatable_def using b c d e nr safe by (auto simp: wf_tree_distinct)
qed

lemma mirrors_cases:
  assumes C: "qC \<longleftrightarrow> (sq = Some Folder \<and> rq \<noteq> Some Folder) \<or> (is_file sq \<and> \<not> is_file rq)"
    and D: "qD \<longleftrightarrow> (rq = Some Folder \<and> sq \<noteq> Some Folder) \<or> (is_file rq \<and> \<not> is_file sq)"
    and K: "qK \<longleftrightarrow> is_file sq \<and> is_file rq"
    and t2: "t2q = (if qC then sq else if qD then None else rq)"
    and t3: "t3q = (if qK \<and> mt t2q \<noteq> mt sq then sq else t2q)"
    and mt: "mt = (\<lambda>x. case x of Some (File m c) \<Rightarrow> Some m | _ \<Rightarrow> None)"
  shows "(t3q = Some Folder \<longleftrightarrow> sq = Some Folder) \<and> mt t3q = mt sq"
proof (cases sq)
  case None
  then show ?thesis using assms
    by (cases rq) (auto simp: is_file_def split: node.splits option.splits)
next
  case (Some n)
  show ?thesis
  proof (cases n)
    case (File m c)
    then show ?thesis using Some assms
      by (cases rq) (auto simp: is_file_def split: node.splits option.splits)
  next
    case Folder
    then show ?thesis using Some assms
      by (cases rq) (auto simp: is_file_def split: node.splits option.splits)
  qed
qed

lemma first_run_mirrors:
  assumes s: "trees w sp = Some s" and r: "trees w rp = Some r" and ne: "sp \<noteq> rp"
    and wf: "wf_tree s" "wf_tree r" and lr: "log_file_ready lf w"
    and nr: "\<forall>c. \<not> refuses ev c"
    and safeD: "substring_safe (deleted_folders (cycle_diff sp rp w))
        (set_union (deleted_folders (cycle_diff sp rp w)) (deleted_files (cycle_diff sp rp w)))"
    and safeC: "substring_safe (created_folders (cycle_diff sp rp w))
        (set_union (created_folders (cycle_diff sp rp w)) (created_files (cycle_diff sp rp w)))"
    and run: "sync_folders ev sp rp lf w = (res, w')"
  shows "res = Inr True \<and> trees w' sp = Some s
     \<and> (\<exists>t. trees w' rp = Some t \<and> distinct (map fst t) \<and> mirrors s t)"
proof -
  let ?d = "cycle_diff sp rp w"
  let ?Cd = "set_minus (folders_of s) (folders_of r)"
  let ?Cf = "set_minus (files_of s) (files_of r)"
  let ?Dd = "set_minus (folders_of r) (folders_of s)"
  let ?Df = "set_minus (files_of r) (files_of s)"
  let ?K = "set_intersection (files_of s) (files_of r)"
  let ?r1 = "filter (\<lambda>(q, n). q \<notin> set ?Dd \<union> set ?Df) r"
  have d: "?d = compute_diff (files_of s, folders_of s) (files_of r, folders_of r)"
    using s r by (rule cycle_diff_Some)
  have f: "deleted_folders ?d = ?Dd" "deleted_files ?d = ?Df" "created_folders ?d = ?Cd"
    "created_files ?d = ?Cf" "common_files ?d = ?K"
    unfolding d by simp_all
  have nr1: "\<forall>p. \<not> refuses ev (Rmtree p) \<and> \<not> refuses ev (Remove p)" using nr by simp
  from cycle_after_deletion[OF s r ne wf lr nr1 safeD run]
  obtain w3 ys r3 where c:
    "trees w3 = (trees w)(rp \<mapsto> ?r1)" "log_writable lf w3"
    "and_then (create_files ev ?Cd ?Cf sp rp (Some lf) w3) (update_files ev ?K sp rp (Some lf)) = (r3, w')"
    "res = (case r3 of None \<Rightarrow> Inr True | Some e \<Rightarrow> Inl e)"
    unfolding f by blast
  have ts3: "trees w3 sp = Some s" using c(1) s ne by simp
  have tr3: "trees w3 rp = Some ?r1" using c(1) by simp
  have d1: "distinct (map fst ?r1)" using wf_tree_distinct[OF wf(2)] by (simp add: distinct_map_filter)
  have m1: "\<forall>q. map_of ?r1 q = (if q \<in> set ?Dd \<union> set ?Df then None else map_of r q)"
    by (simp only: map_of_filter_key) simp
  have nr2: "\<forall>a b. \<not> refuses ev (Copytree a b) \<and> \<not> refuses ev (Copy2 a b)" using nr by simp
  have pre: "creatable ev sp rp s ?r1 ?Cd ?Cf"
    using creatable_diff[OF wf nr2 _ m1] safeC unfolding f by blast
  from create_files_exact[OF pre wf(1) ne ts3 tr3 d1 c(2)]
  obtain w4 t2 where cr:
    "create_files ev ?Cd ?Cf sp rp (Some lf) w3 = (None, w4)"
    "trees w4 sp = Some s" "trees w4 rp = Some t2" "distinct (map fst t2)"
    "\<forall>q. map_of t2 q = (if q \<in> set ?Cd \<union> set ?Cf then map_of s q else map_of ?r1 q)"
    "log_writable lf w4"
    by blast
  note Cd = in_deleted_folders[OF wf(2) wf(1)]
  note Cf = in_deleted_files[OF wf(2) wf(1)]
  note Dd = in_deleted_folders[OF wf]
  note Df = in_deleted_files[OF wf]
  note K = in_common_files[OF wf]
  have t2: "map_of t2 q = (if q \<in> set ?Cd \<union> set ?Cf then map_of s q
       else if q \<in> set ?Dd \<union> set ?Df then None else map_of r q)" for q
    using cr(5)[rule_format, of q] m1[rule_format, of q] by (simp only:) 
  have keep: "map_of t2 q = map_of r q"
    if "map_of s q = Some n" "map_of r q = Some n'" "(n = Folder) = (n' = Folder)" for q n n'
  proof -
    have "q \<notin> set ?Cd \<union> set ?Cf" "q \<notin> set ?Dd \<union> set ?Df"
      using that Cd[of q] Cf[of q] Dd[of q] Df[of q]
      by (cases n; cases n'; auto simp: is_file_def)+
    then show ?thesis using t2[of q] by (simp only: if_False)
  qed
  have upd: "\<forall>f\<in>set ?K. is_file (map_of s f) \<and> is_file (map_of t2 f) \<and> parent_error t2 f = None"
  proof
    fix f assume "f \<in> set ?K"
    then have fs: "is_file (map_of s f)" and fr: "is_file (map_of r f)" using K by auto
    then obtain ms cs mr cr' where e: "map_of s f = Some (File ms cs)" "map_of r f = Some (File mr cr')"
      by (auto simp: is_file_iff)
    have tf: "map_of t2 f = map_of r f" using keep[OF e] by simp
    have "relative f" using wf(1) e(1) by (rule wf_tree_entry)
    then consider "dirname f = []" | "inside (dirname f) f"
      using dirname_cases[of f] by auto
    then have "parent_error t2 f = None"
    proof cases
      case 1
      then show ?thesis by (simp add: parent_error_def)
    next
      case 2
      have sa: "map_of s (dirname f) = Some Folder" using wf_tree_entry(2)[OF wf(1) e(1) 2] .
      have ra: "map_of r (dirname f) = Some Folder" using wf_tree_entry(2)[OF wf(2) e(2) 2] .
      have "map_of t2 (dirname f) = Some Folder" using keep[OF sa ra] ra by simp
      then show ?thesis by (simp add: parent_error_def)
    qed
    then show "is_file (map_of s f) \<and> is_file (map_of t2 f) \<and> parent_error t2 f = None"
      using fs fr tf by simp
  qed
  have dK: "distinct ?K" by simp
  have nr3: "\<forall>f\<in>set ?K. \<not> refuses ev (Getmtime (join sp f)) \<and> \<not> refuses ev (Getmtime (join rp f))"
    using nr by simp
  from update_files_effect[OF cr(2,3) ne dK upd cr(6) nr3]
  obtain w5 t3 where up:
    "update_files ev ?K sp rp (Some lf) w4 = (None, w5)"
    "trees w5 = (trees w4)(rp \<mapsto> t3)"
    "\<forall>q. map_of t3 q = (if q \<in> set ?K \<and> recopied ev sp rp s t2 q then map_of s q else map_of t2 q)"
    "distinct (map fst t2) \<longrightarrow> distinct (map fst t3)"
    by blast
  have e: "r3 = None" "w' = w5" using c(3) cr(1) up(1) by (simp_all add: and_then_def)
  have res: "res = Inr True" using c(4) e(1) by simp
  have ts5: "trees w' sp = Some s" using e(2) up(2) cr(2) ne by simp
  have tr5: "trees w' rp = Some t3" using e(2) up(2) by simp
  have dt3: "distinct (map fst t3)" using up(4) cr(4) by simp
  have "mirrors s t3"
    unfolding mirrors_def
  proof
    fix q
    have C: "q \<in> set ?Cd \<union> set ?Cf \<longleftrightarrow>
        (map_of s q = Some Folder \<and> map_of r q \<noteq> Some Folder) \<or> (is_file (map_of s q) \<and> \<not> is_file (map_of r q))"
      using Cd[of q] Cf[of q] by blast
    have D: "q \<in> set ?Dd \<union> set ?Df \<longleftrightarrow>
        (map_of r q = Some Folder \<and> map_of s q \<noteq> Some Folder) \<or> (is_file (map_of r q) \<and> \<not> is_file (map_of s q))"
      using Dd[of q] Df[of q] by blast
    have t3: "map_of t3 q = (if q \<in> set ?K \<and>
          (\<lambda>x. case x of Some (File m c) \<Rightarrow> Some m | _ \<Rightarrow> None) (map_of t2 q)
            \<noteq> (\<lambda>x. case x of Some (File m c) \<Rightarrow> Some m | _ \<Rightarrow> None) (map_of s q)
          then map_of s q else map_of t2 q)"
      using up(3)[rule_format, of q] nr by (simp add: recopied_def mtime_of_def)
    from mirrors_cases[OF C D K[of q] t2[of q] t3 refl]
    show "(map_of t3 q = Some Folder \<longleftrightarrow> map_of s q = Some Folder) \<and> mtime_of t3 q = mtime_of s q"
      by (simp add: mtime_of_def)
  qed
  then show ?thesis using res ts5 tr5 dt3 by blast
qed

section \<open>A cycle on a replica that mirrors the source\<close>

lemma quiet_stepI:
  assumes "trees w' = trees w" "dirs w' = dirs w" "text_files w' = text_files w"
    "calls w' = calls w @ cs" "list_all observing cs"
  shows "quiet_step w w'"
  using assms by (simp add: quiet_step_def)

lemma quiet_stepE:
  assumes "quiet_step w w'"
  obtains cs where "trees w' = trees w" "dirs w' = dirs w" "text_files w' = text_files w"
    "calls w' = calls w @ cs" "list_all observing cs"
proof -
  let ?cs = "drop (length (calls w)) (calls w')"
  have "calls w' = calls w @ ?cs"
    using assms append_take_drop_id[of "length (calls w)" "calls w'"] by (simp add: quiet_step_def)
  then show ?thesis using that[of ?cs] assms by (simp add: quiet_step_def)
qed

lemma quiet_step_refl: "quiet_step w w"
  by (rule quiet_stepI[where cs = "[]"]) simp_all

lemma quiet_step_trans:
  assumes "quiet_step w w1" "quiet_step w1 w2"
  shows "quiet_step w w2"
proof -
  from assms(1) obtain cs where a: "trees w1 = trees w" "dirs w1 = dirs w" "text_files w1 = text_files w"
    "calls w1 = calls w @ cs" "list_all observing cs" by (rule quiet_stepE)
  from assms(2) obtain ds where b: "trees w2 = trees w1" "dirs w2 = dirs w1" "text_files w2 = text_files w1"
    "calls w2 = calls w1 @ ds" "list_all observing ds" by (rule quiet_stepE)
  show ?thesis
    by (rule quiet_stepI[where cs = "cs @ ds"]) (simp_all add: a b)
qed

lemma quiet_step_called: "observing c \<Longrightarrow> quiet_step w (called c w)"
  by (rule quiet_stepI[where cs = "[c]"]) simp_all

lemma for_each_inv_mem:
  assumes step: "\<And>x s r s'. x \<in> X \<Longrightarrow> I s \<Longrightarrow> body x s = (r, s') \<Longrightarrow> I s'"
  shows "set xs \<subseteq> X \<Longrightarrow> I s \<Longrightarrow> for_each body xs s = (r, s') \<Longrightarrow> I s'"
proof (induction xs arbitrary: s)
  case Nil
  then show ?case by simp
next
  case (Cons x xs)
  obtain r1 s1 where b: "body x s = (r1, s1)" by (cases "body x s")
  have x: "x \<in> X" using Cons.prems(1) by simp
  have i1: "I s1" using step[OF x Cons.prems(2) b] .
  show ?case
  proof (cases r1)
    case None
    then have "for_each body xs s1 = (r, s')" using Cons.prems(3) b by (simp add: and_then_def)
    then show ?thesis using Cons.IH[OF _ i1] Cons.prems(1) by simp
  next
    case (Some e)
    then have "s' = s1" using Cons.prems(3) b by (simp add: and_then_def)
    then show ?thesis using i1 by simp
  qed
qed

lemma update_file_quiet:
  assumes "trees w sp = Some s" "trees w rp = Some t"
    and "map_of s f = Some (File m c)" "map_of t f = Some (File m c')"
    and "update_file ev sp rp lfo f w = (r, w')"
  shows "quiet_step w w'"
proof -
  let ?g1 = "Getmtime (join sp f)" and ?g2 = "Getmtime (join rp f)"
  have o: "observing ?g1" "observing ?g2" by simp_all
  have q1: "quiet_step w (called ?g1 w)" using o(1) by (rule quiet_step_called)
  have q2: "quiet_step w (called ?g2 (called ?g1 w))"
    using q1 quiet_step_called[OF o(2)] by (rule quiet_step_trans)
  have "w' = called ?g1 w \<or> w' = called ?g2 (called ?g1 w)"
    using assms by (auto simp: update_file_def os_path_getmtime_def Let_def split: if_splits)
  then show ?thesis using q1 q2 by auto
qed

lemma set_minus_Nil: "set xs \<subseteq> set ys \<Longrightarrow> set_minus xs ys = []"
  by (auto simp: set_minus_def filter_empty_conv)

lemma mirrors_snapshot:
  assumes d: "distinct (map fst s)" "distinct (map fst t)" and m: "mirrors s t"
  shows "set (folders_of t) = set (folders_of s)" and "set (files_of t) = set (files_of s)"
proof -
  show "set (folders_of t) = set (folders_of s)"
    using m by (auto simp: in_folders_of d mirrors_def)
  have "is_file (map_of t q) \<longleftrightarrow> is_file (map_of s q)" for q
  proof -
    have "is_file x \<longleftrightarrow> (case x of Some (File m c) \<Rightarrow> Some m | _ \<Rightarrow> None) \<noteq> None" for x
      by (auto simp: is_file_def split: option.splits node.splits)
    then show ?thesis using m by (simp add: mirrors_def mtime_of_def)
  qed
  then show "set (files_of t) = set (files_of s)"
    by (auto simp: in_files_of d)
qed

lemma mirrored_run_quiet:
  assumes s: "trees w sp = Some s" and t: "trees w rp = Some t"
    and d: "distinct (map fst s)" "distinct (map fst t)" and m: "mirrors s t"
    and run: "sync_folders ev sp rp lf w = (res, w')"
  shows "quiet_step w w'"
proof -
  let ?ps = "[dirname lf, lf, sp, rp]"
  obtain b w0 where ae: "all_exist ?ps w = (b, w0)" by (cases "all_exist ?ps w")
  show ?thesis
  proof (cases b)
    case False
    then have w': "w' = w0" using run ae by (simp add: sync_folders_def)
    have "all_exist ?ps w = (False, w0)" using ae False by simp
    from all_exist_False[OF this] obtain n where
      "w0 = w\<lparr>calls := calls w @ map Exists (take (Suc n) ?ps)\<rparr>" by blast
    then have "quiet_step w w0"
      by (intro quiet_stepI[where cs = "map Exists (take (Suc n) ?ps)"]) (simp_all add: list_all_iff)
    then show ?thesis using w' by simp
  next
    case True
    then have ae': "all_exist ?ps w = (True, w0)" using ae by simp
    have w0: "w0 = w\<lparr>calls := calls w @ map Exists ?ps\<rparr>" using ae' by (rule all_exist_True)
    let ?w2 = "called (Walk rp) (called (Walk sp) w0)"
    have q0: "quiet_step w w0"
      unfolding w0 by (intro quiet_stepI[where cs = "map Exists ?ps"]) simp_all
    have q1: "quiet_step w (called (Walk sp) w0)"
      using q0 quiet_step_called[of "Walk sp" w0] by (rule quiet_step_trans) simp
    have q2: "quiet_step w ?w2"
      using q1 quiet_step_called[of "Walk rp" "called (Walk sp) w0"] by (rule quiet_step_trans) simp
    from q2 have t2: "trees ?w2 = trees w" by (rule quiet_stepE)
    let ?K = "set_intersection (files_of s) (files_of t)"
    note ms = mirrors_snapshot[OF d m]
    have cd: "cycle_diff sp rp w = \<lparr>deleted_files = [], deleted_folders = [], created_files = [],
        created_folders = [], common_files = ?K\<rparr>"
      unfolding cycle_diff_Some[OF s t] using ms
      by (simp add: compute_diff_def set_minus_Nil)
    obtain r3 w3 where up: "update_files ev ?K sp rp (Some lf) ?w2 = (r3, w3)"
      by (cases "update_files ev ?K sp rp (Some lf) ?w2")
    have ap: "apply_diff ev (cycle_diff sp rp w) sp rp (Some lf) ?w2 = (r3, w3)"
      unfolding cd using up
      by (simp add: apply_diff_def delete_files_def create_files_def and_then_def)
    have w': "w' = w3"
      using run ap unfolding sync_folders_unfold[OF ae'] by (auto split: option.splits)
    have step: "quiet_step w w2'"
      if "f \<in> set ?K" "quiet_step w w1" "update_file ev sp rp (Some lf) f w1 = (r, w2')" for f w1 r w2'
    proof -
      from that(2) have t1: "trees w1 = trees w" by (rule quiet_stepE)
      have fs: "is_file (map_of s f)" using that(1) by (simp add: in_files_of d)
      then obtain mm c where sf: "map_of s f = Some (File mm c)" by (auto simp: is_file_iff)
      have "mtime_of t f = Some mm" using m sf by (simp add: mirrors_def mtime_of_def)
      then obtain c' where tf: "map_of t f = Some (File mm c')"
        by (auto simp: mtime_of_def split: option.splits node.splits)
      have "quiet_step w1 w2'"
        using update_file_quiet[OF _ _ sf tf that(3)] s t t1 by simp
      then show ?thesis using that(2) quiet_step_trans by blast
    qed
    have "quiet_step w w3"
      using for_each_inv_mem[where I = "quiet_step w" and X = "set ?K"
          and body = "update_file ev sp rp (Some lf)" and xs = ?K, OF step _ q2] up
      by (simp add: update_files_def)
    then show ?thesis using w' by simp
  qed
qed

section \<open>Idempotence\<close>

text \<open>
  Claim C8 at a failing input. The source holds the folder \<open>folder10\<close>; the replica
  holds \<open>folder1\<close>, \<open>folder10\<close> and the file \<open>folder10/x\<close>. No call is refused
  in either cycle and nothing changes in between. The first cycle removes \<open>folder1\<close>,
  marks \<open>folder10/x\<close> as deleted because \<open>folder1\<close> occurs in its path, and leaves
  the file in the replica. The second cycle finds the file, removes it and logs a
  \<open>DELETED\<close> line.
\<close>

theorem second_cycle_deletes_file_marked_by_substring:
  "(case sync_folders no_refusal ''src'' ''rep'' ''log/l.txt''
      (example_world [(''folder10'', Folder)]
         [(''folder1'', Folder), (''folder10'', Folder), (''folder10/x'', File 1 ''hi'')]) of
      (r1, w1) \<Rightarrow>
        (case sync_folders no_refusal ''src'' ''rep'' ''log/l.txt'' w1 of
           (r2, w2) \<Rightarrow>
             (r1, tree_at ''rep'' w1, logged ''log/l.txt'' w1,
              r2, tree_at ''rep'' w2, new_lines ''log/l.txt'' w1 w2, new_calls w1 w2)))
   = (Inr True,
      [(''folder10'', Folder), (''folder10/x'', File 1 ''hi'')],
      [(DELETED, ''rep/folder1''), (DELETED, ''rep/folder10/x'')],
      Inr True,
      [(''folder10'', Folder)],
      [(DELETED, ''rep/folder10/x'')],
      [Exists ''log'', Exists ''log/l.txt'', Exists ''src'', Exists ''rep'',
       Walk ''src'', Walk ''rep'', Remove ''rep/folder10/x''])"
  by (simp add: new_lines_def new_calls_def example_defs model_defs)

text \<open>
  Away from the substring slip a second cycle is quiet. Let both trees be well formed,
  the log file be ready, and let a first cycle run in which the operating system refuses
  no call and in which, among the paths to delete and among the paths to create, a
  folder's path occurs as a substring only in itself and in paths inside it. Then the
  first cycle returns \<open>True\<close> and leaves a replica that mirrors the source: the same
  folders, the same files, and equal modification times. A second cycle run right after
  it, whatever the operating system refuses then, adds no line to the log, leaves the
  replica as it is, and makes no call that removes or copies: it only checks existence,
  walks the two trees and reads modification times.
\<close>

theorem second_cycle_is_quiet:
  assumes "trees w source_path = Some s" and "trees w replica_path = Some r"
    and "source_path \<noteq> replica_path"
    and "wf_tree s" and "wf_tree r" and "log_file_ready lf w"
    and "\<forall>c. \<not> refuses ev c"
    and "substring_safe (deleted_folders (cycle_diff source_path replica_path w))
        (set_union (deleted_folders (cycle_diff source_path replica_path w))
           (deleted_files (cycle_diff source_path replica_path w)))"
    and "substring_safe (created_folders (cycle_diff source_path replica_path w))
        (set_union (created_folders (cycle_diff source_path replica_path w))
           (created_files (cycle_diff source_path replica_path w)))"
    and "sync_folders ev source_path replica_path lf w = (res, w')"
    and "sync_folders ev' source_path replica_path lf w' = (res', w'')"
  shows "res = Inr True
    \<and> mirrors s (tree_at replica_path w')
    \<and> new_lines lf w' w'' = []
    \<and> tree_at replica_path w'' = tree_at replica_path w'
    \<and> list_all observing (new_calls w' w'')"
proof -
  from first_run_mirrors[OF assms(1-10)] obtain t where a:
    "res = Inr True" "trees w' source_path = Some s" "trees w' replica_path = Some t"
    "distinct (map fst t)" "mirrors s t"
    by blast
  have ds: "distinct (map fst s)" using assms(4) by (rule wf_tree_distinct)
  have q: "quiet_step w' w''"
    using mirrored_run_quiet[OF a(2,3) ds a(4,5) assms(11)] .
  have m: "mirrors s (tree_at replica_path w')" using a(3,5) by (simp add: tree_at_def)
  have l: "new_lines lf w' w'' = []" using q by (simp add: quiet_step_def new_lines_def logged_def)
  have t: "tree_at replica_path w'' = tree_at replica_path w'"
    using q by (simp add: quiet_step_def tree_at_def)
  have c: "list_all observing (new_calls w' w'')" using q by (simp add: quiet_step_def new_calls_def)
  show ?thesis using a(1) m l t c by simp
qed

theorem second_cycle_is_quiet_witness:
  "fst (sync_folders no_refusal ''src'' ''rep'' ''log/l.txt'' stale_example) = Inr True
   \<and> mirrors [(''a'', Folder), (''a/f'', File 5 ''x''), (''g'', File 3 ''new'')]
       (tree_at ''rep'' (snd (sync_folders no_refusal ''src'' ''rep'' ''log/l.txt'' stale_example)))
   \<and> new_lines ''log/l.txt''
       (snd (sync_folders no_refusal ''src'' ''rep'' ''log/l.txt'' stale_example))
       (snd (sync_folders no_refusal ''src'' ''rep'' ''log/l.txt''
          (snd (sync_folders no_refusal ''src'' ''rep'' ''log/l.txt'' stale_example)))) = []
   \<and> tree_at ''rep'' (snd (sync_folders no_refusal ''src'' ''rep'' ''log/l.txt''
          (snd (sync_folders no_refusal ''src'' ''rep'' ''log/l.txt'' stale_example))))
       = tree_at ''rep'' (snd (sync_folders no_refusal ''src'' ''rep'' ''log/l.txt'' stale_example))
   \<and> list_all observing (new_calls
       (snd (sync_folders no_refusal ''src'' ''rep'' ''log/l.txt'' stale_example))
       (snd (sync_folders no_refusal ''src'' ''rep'' ''log/l.txt''
          (snd (sync_folders no_refusal ''src'' ''rep'' ''log/l.txt'' stale_example)))))"
proof -
  let ?s = "[(''a'', Folder), (''a/f'', File 5 ''x''), (''g'', File 3 ''new'')]"
  let ?r = "[(''g'', File 1 ''old''), (''z'', File 2 ''bye'')]"
  let ?run = "sync_folders no_refusal ''src'' ''rep'' ''log/l.txt'' stale_example"
  let ?run' = "sync_folders no_refusal ''src'' ''rep'' ''log/l.txt'' (snd ?run)"
  have h1: "trees stale_example ''src'' = Some ?s" and h2: "trees stale_example ''rep'' = Some ?r"
    by (simp_all add: stale_example_def example_world_def)
  have h3: "''src'' \<noteq> ''rep''" by simp
  have h4: "wf_tree ?s" by (simp add: wf_tree_def relative_def ancestors_def sep_def)
  have h5: "wf_tree ?r" by (simp add: wf_tree_def relative_def ancestors_def sep_def)
  have h6: "log_file_ready ''log/l.txt'' stale_example"
    by (simp add: log_file_ready_def stale_example_def example_world_def dirname_def sep_def)
  have h7: "\<forall>c. \<not> refuses no_refusal c" by (simp add: no_refusal_def)
  have d: "cycle_diff ''src'' ''rep'' stale_example
      = \<lparr>deleted_files = [''z''], deleted_folders = [], created_files = [''a/f''],
         created_folders = [''a''], common_files = [''g'']\<rparr>"
    by (simp add: cycle_diff_def stale_example_def example_world_def get_all_files_and_folders_def
        compute_diff_def set_minus_def set_intersection_def)
  have h8: "substring_safe (deleted_folders (cycle_diff ''src'' ''rep'' stale_example))
        (set_union (deleted_folders (cycle_diff ''src'' ''rep'' stale_example))
           (deleted_files (cycle_diff ''src'' ''rep'' stale_example)))"
    unfolding d by (simp add: substring_safe_def set_union_def inside_def sep_def)
  have h9: "substring_safe (created_folders (cycle_diff ''src'' ''rep'' stale_example))
        (set_union (created_folders (cycle_diff ''src'' ''rep'' stale_example))
           (created_files (cycle_diff ''src'' ''rep'' stale_example)))"
    unfolding d by (simp add: substring_safe_def set_union_def inside_def sep_def)
  have h10: "?run = (fst ?run, snd ?run)" by simp
  have h11: "?run' = (fst ?run', snd ?run')" by simp
  from second_cycle_is_quiet[OF h1 h2 h3 h4 h5 h6 h7 h8 h9 h10 h11]
  show ?thesis .
qed

end
